theory Spec2Isabelle
  imports Complex_Main "HOL-Library.Sublist"
begin

section \<open>Data model of \<^verbatim>\<open>speak_then.js\<close>\<close>

text \<open>
  The three classes of the module become records: \<^verbatim>\<open>WakeWordDetector\<close>,
  \<^verbatim>\<open>CommandRecognizer\<close> and \<^verbatim>\<open>SpeakThen\<close>, which owns one of each. JavaScript
  numbers are modelled as \<open>real\<close> (rounding to float32 and NaN are not represented),
  strings as \<open>string\<close> restricted to ASCII, DOM elements as identifiers. Everything the
  module does to the outside (user callbacks, \<^verbatim>\<open>console.error\<close>, DOM events, calls on the
  speech recogniser) is appended to a trace kept in the \<^verbatim>\<open>SpeakThen\<close> record; user
  callbacks are opaque: they neither throw nor call back into the instance. The
  asynchronous methods are modelled one call at a time; \<^verbatim>\<open>processFrame\<close> is also cut at
  its \<^verbatim>\<open>await\<close>s, so that another method can be placed between two of its stretches.
\<close>

definition SAMPLE_RATE :: nat where "SAMPLE_RATE = 16000"
definition FRAME_SAMPLES :: nat where "FRAME_SAMPLES = 1280"
definition MELSPEC_WINDOW :: nat where "MELSPEC_WINDOW = 76"

type_synonym element = nat

datatype error = Error string | RangeError

datatype session_state = Sleeping | Awake

text \<open>An external resource handle (\<^verbatim>\<open>AudioContext\<close>, worklet node, media stream) is either
  in use or has been released by \<^verbatim>\<open>disconnect()\<close>, \<^verbatim>\<open>close()\<close> or \<^verbatim>\<open>stop()\<close>.\<close>

datatype resource = Active | Released

datatype event =
    WakeWordError error
  | ConsoleError string
  | OnError error
  | OnDetection real
  | OnWake
  | OnSleep
  | OnSpeech string
  | DispatchEvent element string string
  | RecognitionStart
  | RecognitionStop

text \<open>The external capabilities: the three ONNX sessions as functions from the input
  tensor's data to the output tensor's data (or a rejection), model loading by path,
  microphone and worklet set-up, and whether the browser has a speech recogniser.\<close>

record env =
  create_session :: "string \<Rightarrow> error option"
  mel_run :: "real list \<Rightarrow> error + real list"
  emb_run :: "real list \<Rightarrow> error + real list"
  wake_run :: "real list \<Rightarrow> error + real list"
  getUserMedia :: "error option"
  addModule :: "error option"
  SR :: bool

record WakeWordDetector =
  d_basePath :: string
  d_wakeModel :: string
  d_confidence :: real
  d_onError :: bool
  sessions :: bool
  audioContext :: "resource option"
  worklet :: "resource option"
  stream :: "resource option"
  melFrames :: "real list list"
  embeddingBuffer :: "real list list"
  onDetection :: bool
  running :: bool
  initialized :: bool
  melInputBuffer :: "real list"
  embInputBuffer :: "real list"

record CommandRecognizer =
  r_lang :: string
  r_onError :: bool
  recognition :: bool
  commands :: "(string \<times> element list) list"
  r_running :: bool
  onSpeech :: bool

record config =
  basePath :: string
  wakeModel :: string
  confidence :: real
  sleepAfter :: real
  lang :: string
  onWake :: bool
  onSleep :: bool
  onError :: bool

record SpeakThen =
  config :: config
  state :: session_state
  sleepTimer :: "real option"
  started :: bool
  wakeDetector :: WakeWordDetector
  commandRecognizer :: CommandRecognizer
  trace :: "event list"

text \<open>The options object given to the constructor: an absent property is \<open>None\<close>; the
  callbacks are present or absent.\<close>

record options =
  opt_basePath :: "string option"
  opt_wakeModel :: "string option"
  opt_confidence :: "real option"
  opt_sleepAfter :: "real option"
  opt_lang :: "string option"
  opt_onWake :: bool
  opt_onSleep :: bool
  opt_onError :: bool

section \<open>WakeWordDetector\<close>

definition new_WakeWordDetector :: "string \<Rightarrow> string \<Rightarrow> real \<Rightarrow> bool \<Rightarrow> WakeWordDetector" where
  "new_WakeWordDetector bp wm conf oe =
     \<lparr> d_basePath = bp, d_wakeModel = wm, d_confidence = conf, d_onError = oe,
       sessions = False, audioContext = None, worklet = None, stream = None,
       melFrames = [], embeddingBuffer = [], onDetection = False,
       running = False, initialized = False,
       melInputBuffer = replicate (MELSPEC_WINDOW * 32) 0,
       embInputBuffer = replicate (16 * 96) 0 \<rparr>"

text \<open>\<^verbatim>\<open>initialize()\<close>: the three sessions are created from the base path; a rejected
  load rejects the call and leaves \<^verbatim>\<open>sessions\<close> as it was.\<close>

definition initialize :: "env \<Rightarrow> WakeWordDetector \<Rightarrow> error option \<times> WakeWordDetector" where
  "initialize E d =
     (case create_session E (d_basePath d @ ''/melspectrogram.onnx'') of
        Some e \<Rightarrow> (Some e, d)
      | None \<Rightarrow>
     (case create_session E (d_basePath d @ ''/embedding_model.onnx'') of
        Some e \<Rightarrow> (Some e, d)
      | None \<Rightarrow>
     (case create_session E (d_basePath d @ ''/'' @ d_wakeModel d) of
        Some e \<Rightarrow> (Some e, d)
      | None \<Rightarrow> (None, d\<lparr>sessions := True\<rparr>))))"

text \<open>\<^verbatim>\<open>start(onDetection)\<close>; the only callback the module ever passes is
  \<^verbatim>\<open>() => this.wake()\<close>, so \<^verbatim>\<open>onDetection\<close> records that it is installed.\<close>

definition detector_start :: "env \<Rightarrow> WakeWordDetector \<Rightarrow> error option \<times> WakeWordDetector" where
  "detector_start E d =
     (if initialized d
      then (Some (Error ''WakeWordDetector already started. Call stop() first.''), d)
      else
        let d1 = d\<lparr>onDetection := True, running := True, melFrames := [], embeddingBuffer := []\<rparr> in
        (case getUserMedia E of
           Some e \<Rightarrow> (Some e, d1)
         | None \<Rightarrow>
             let d2 = d1\<lparr>stream := Some Active, audioContext := Some Active\<rparr> in
             (case addModule E of
                Some e \<Rightarrow> (Some e, d2)
              | None \<Rightarrow> (None, d2\<lparr>worklet := Some Active, initialized := True\<rparr>))))"

definition release :: "resource option \<Rightarrow> resource option" where
  "release r = (case r of None \<Rightarrow> None | Some _ \<Rightarrow> Some Released)"

definition detector_stop :: "WakeWordDetector \<Rightarrow> WakeWordDetector" where
  "detector_stop d =
     d\<lparr>running := False, initialized := False, worklet := release (worklet d),
       audioContext := release (audioContext d), stream := release (stream d)\<rparr>"

definition pause :: "WakeWordDetector \<Rightarrow> WakeWordDetector" where
  "pause d = d\<lparr>running := False\<rparr>"

definition resume :: "WakeWordDetector \<Rightarrow> WakeWordDetector" where
  "resume d = d\<lparr>melFrames := [], embeddingBuffer := [], running := True\<rparr>"

subsection \<open>Typed-array and slicing helpers\<close>

text \<open>\<^verbatim>\<open>Array.prototype.slice(a, b)\<close> for \<open>a \<le> b\<close>, clamped at the end of the array.\<close>

definition slice :: "'a list \<Rightarrow> nat \<Rightarrow> nat \<Rightarrow> 'a list" where
  "slice xs a b = take (b - a) (drop a xs)"

text \<open>\<^verbatim>\<open>Float32Array.prototype.set(src, off)\<close>: a source that does not fit raises a
  \<^verbatim>\<open>RangeError\<close> and writes nothing.\<close>

definition f32_set :: "real list \<Rightarrow> real list \<Rightarrow> nat \<Rightarrow> error + real list" where
  "f32_set buf src off =
     (if off + length src > length buf then Inl RangeError
      else Inr (take off buf @ src @ drop (off + length src) buf))"

text \<open>The loops \<^verbatim>\<open>for (i = 0; i < n; i++) buf.set(rows[i], i * stride)\<close>, started at
  row \<open>i\<close>. A throwing \<^verbatim>\<open>set\<close> leaves the rows written so far in the buffer.\<close>

fun set_rows :: "real list \<Rightarrow> nat \<Rightarrow> nat \<Rightarrow> real list list \<Rightarrow> error option \<times> real list" where
  "set_rows buf stride i [] = (None, buf)"
| "set_rows buf stride i (src # srcs) =
     (case f32_set buf src (i * stride) of
        Inl e \<Rightarrow> (Some e, buf)
      | Inr buf' \<Rightarrow> set_rows buf' stride (Suc i) srcs)"

text \<open>The frames cut from one spectrogram output: \<^verbatim>\<open>i\<close> runs while
  \<^verbatim>\<open>i < melData.length / 32\<close>, a comparison of reals, so there are
  \<open>\<lceil>length / 32\<rceil>\<close> frames and the last one is short when the length is not a
  multiple of 32. Each value \<open>x\<close> is stored as \<open>x / 10 + 2\<close>.\<close>

definition mel_frames :: "real list \<Rightarrow> real list list" where
  "mel_frames melData =
     map (\<lambda>i. map (\<lambda>x. x / 10 + 2) (slice melData (i * 32) ((i + 1) * 32)))
       [0 ..< (length melData + 31) div 32]"

section \<open>CommandRecognizer\<close>

subsection \<open>String helpers (ASCII)\<close>

definition char_lower :: "char \<Rightarrow> char" where
  "char_lower c =
     (let n = (of_char c :: nat) in if 65 \<le> n \<and> n \<le> 90 then char_of (n + 32) else c)"

definition toLowerCase :: "string \<Rightarrow> string" where
  "toLowerCase s = map char_lower s"

text \<open>White space as matched by \<^verbatim>\<open>trim()\<close> and by \<^verbatim>\<open>\s\<close>: tab, line feed,
  vertical tab, form feed, carriage return and space.\<close>

definition is_space :: "char \<Rightarrow> bool" where
  "is_space c = ((of_char c :: nat) \<in> {9, 10, 11, 12, 13, 32})"

definition trim :: "string \<Rightarrow> string" where
  "trim s = rev (dropWhile is_space (rev (dropWhile is_space s)))"

text \<open>\<^verbatim>\<open>String.prototype.includes\<close>.\<close>

definition str_includes :: "string \<Rightarrow> string \<Rightarrow> bool" where
  "str_includes s phrase = sublist phrase s"

subsection \<open>The command map\<close>

text \<open>A JavaScript \<^verbatim>\<open>Map\<close> iterates in insertion order of its keys: an association
  list in which \<^verbatim>\<open>set\<close> of a new key appends.\<close>

definition map_has :: "(string \<times> element list) list \<Rightarrow> string \<Rightarrow> bool" where
  "map_has m k = (k \<in> set (map fst m))"

definition map_push :: "(string \<times> element list) list \<Rightarrow> string \<Rightarrow> element \<Rightarrow> (string \<times> element list) list" where
  "map_push m k el = map (\<lambda>(k', els). if k' = k then (k', els @ [el]) else (k', els)) m"

definition new_CommandRecognizer :: "string \<Rightarrow> bool \<Rightarrow> CommandRecognizer" where
  "new_CommandRecognizer l oe =
     \<lparr> r_lang = l, r_onError = oe, recognition = False, commands = [],
       r_running = False, onSpeech = False \<rparr>"

definition register :: "string \<Rightarrow> element \<Rightarrow> CommandRecognizer \<Rightarrow> CommandRecognizer" where
  "register phrase el r =
     (let key = toLowerCase phrase;
          m = (if \<not> map_has (commands r) key then commands r @ [(key, [])] else commands r)
      in r\<lparr>commands := map_push m key el\<rparr>)"

section \<open>SpeakThen\<close>

definition log :: "event \<Rightarrow> SpeakThen \<Rightarrow> SpeakThen" where
  "log e s = s\<lparr>trace := trace s @ [e]\<rparr>"

text \<open>\<^verbatim>\<open>CommandRecognizer.start(onSpeech)\<close>, always called with
  \<^verbatim>\<open>() => this.resetSleepTimer()\<close>. Without a recogniser in the browser it reports and
  returns; otherwise a fresh recognition object is created, its handlers installed, and it
  is started (\<^verbatim>\<open>start()\<close> on a fresh recognition object is taken not to throw).\<close>

definition recognizer_start :: "env \<Rightarrow> SpeakThen \<Rightarrow> SpeakThen" where
  "recognizer_start E s =
     (if \<not> SR E then
        let s1 = log (ConsoleError ''Speech recognition not supported in this browser'') s
        in if r_onError (commandRecognizer s1)
           then log (OnError (Error ''Speech recognition not supported in this browser'')) s1
           else s1
      else
        log RecognitionStart
          (s\<lparr>commandRecognizer :=
               (commandRecognizer s)\<lparr>recognition := True, r_running := True, onSpeech := True\<rparr>\<rparr>))"

definition recognizer_stop :: "SpeakThen \<Rightarrow> SpeakThen" where
  "recognizer_stop s =
     (let s1 = s\<lparr>commandRecognizer := (commandRecognizer s)\<lparr>r_running := False\<rparr>\<rparr>
      in if recognition (commandRecognizer s1) then log RecognitionStop s1 else s1)"

text \<open>\<^verbatim>\<open>resetSleepTimer()\<close>: \<^verbatim>\<open>sleepTimer\<close> holds the delay of the pending timeout, if
  one is pending.\<close>

definition resetSleepTimer :: "SpeakThen \<Rightarrow> SpeakThen" where
  "resetSleepTimer s = s\<lparr>sleepTimer := Some (sleepAfter (config s))\<rparr>"

text \<open>The events dispatched for one normalised transcript: the map is walked in
  insertion order and every element of a matching phrase receives \<^verbatim>\<open>speak:<phrase>\<close>.\<close>

definition dispatches :: "(string \<times> element list) list \<Rightarrow> string \<Rightarrow> event list" where
  "dispatches m transcript =
     concat (map (\<lambda>(phrase, elements).
                    if str_includes transcript phrase
                    then map (\<lambda>el. DispatchEvent el phrase transcript) elements
                    else []) m)"

text \<open>The \<^verbatim>\<open>onresult\<close> handler, given the transcript of the last result.\<close>

definition onresult :: "string \<Rightarrow> SpeakThen \<Rightarrow> SpeakThen" where
  "onresult raw s =
     (let transcript = toLowerCase (trim raw);
          s1 = s\<lparr>trace := trace s @ dispatches (commands (commandRecognizer s)) transcript\<rparr>
      in if onSpeech (commandRecognizer s1)
         then resetSleepTimer (log (OnSpeech transcript) s1)
         else s1)"

definition wake :: "env \<Rightarrow> SpeakThen \<Rightarrow> SpeakThen" where
  "wake E s =
     (if state s = Awake then s
      else
        let s1 = s\<lparr>state := Awake\<rparr>;
            s2 = s1\<lparr>wakeDetector := pause (wakeDetector s1)\<rparr>;
            s3 = (if onWake (config s2) then log OnWake s2 else s2);
            s4 = recognizer_start E s3
        in resetSleepTimer s4)"

definition sleep :: "SpeakThen \<Rightarrow> SpeakThen" where
  "sleep s =
     (if state s = Sleeping then s
      else
        let s1 = s\<lparr>state := Sleeping\<rparr>;
            s2 = recognizer_stop s1;
            s3 = (if onSleep (config s2) then log OnSleep s2 else s2)
        in s3\<lparr>wakeDetector := resume (wakeDetector s3)\<rparr>)"

definition stop :: "SpeakThen \<Rightarrow> SpeakThen" where
  "stop s =
     (let s1 = s\<lparr>sleepTimer := None\<rparr>;
          s2 = recognizer_stop s1;
          s3 = s2\<lparr>wakeDetector := detector_stop (wakeDetector s2)\<rparr>
      in s3\<lparr>started := False\<rparr>)"

text \<open>\<^verbatim>\<open>start()\<close>, run without interleaving; the first component is the rejection, if
  any.\<close>

definition start :: "env \<Rightarrow> SpeakThen \<Rightarrow> error option \<times> SpeakThen" where
  "start E s =
     (if started s then (Some (Error ''SpeakThen already started. Call stop() first.''), s)
      else
        (case initialize E (wakeDetector s) of
           (Some e, d1) \<Rightarrow> (Some e, s\<lparr>wakeDetector := d1\<rparr>)
         | (None, d1) \<Rightarrow>
             (case detector_start E d1 of
                (Some e, d2) \<Rightarrow> (Some e, s\<lparr>wakeDetector := d2\<rparr>)
              | (None, d2) \<Rightarrow> (None, s\<lparr>wakeDetector := d2, started := True\<rparr>))))"

text \<open>The pending timeout fires: \<^verbatim>\<open>() => this.sleep()\<close>.\<close>

definition timer_fires :: "SpeakThen \<Rightarrow> SpeakThen" where
  "timer_fires s = (case sleepTimer s of None \<Rightarrow> s | Some _ \<Rightarrow> sleep (s\<lparr>sleepTimer := None\<rparr>))"

subsection \<open>Construction\<close>

text \<open>\<^verbatim>\<open>x || d\<close> on an optional number or string: the default replaces every falsy
  value, that is an absent property, the number 0 and the empty string.\<close>

definition num_or :: "real option \<Rightarrow> real \<Rightarrow> real" where
  "num_or x d = (case x of None \<Rightarrow> d | Some v \<Rightarrow> if v = 0 then d else v)"

definition str_or :: "string option \<Rightarrow> string \<Rightarrow> string" where
  "str_or x d = (case x of None \<Rightarrow> d | Some v \<Rightarrow> if v = [] then d else v)"

text \<open>\<^verbatim>\<open>String.prototype.split(/\s+/)\<close>: the pieces between maximal runs of white
  space; \<open>cur\<close> is the piece being read, reversed.\<close>

function split_ws :: "string \<Rightarrow> string \<Rightarrow> string list" where
  "split_ws cur [] = [rev cur]"
| "split_ws cur (c # cs) =
     (if is_space c then rev cur # split_ws [] (dropWhile is_space cs)
      else split_ws (c # cur) cs)"
  by pat_completeness auto
termination
  by (relation "measure (\<lambda>(cur, cs). length cs)")
     (auto simp: length_dropWhile_le less_Suc_eq_le)

text \<open>\<^verbatim>\<open>action.match(/^speak:([^->]+)/)\<close>: the first group, if the action matches.\<close>

definition match_speak :: "string \<Rightarrow> string option" where
  "match_speak action =
     (if prefix ''speak:'' action
      then (let m = takeWhile (\<lambda>c. c \<noteq> CHR ''-'' \<and> c \<noteq> CHR ''>'') (drop 6 action)
            in if m = [] then None else Some m)
      else None)"

text \<open>\<^verbatim>\<open>discoverCommands()\<close>; the argument lists the elements found by
  \<^verbatim>\<open>querySelectorAll("[data-action]")\<close> in document order, each with its
  \<^verbatim>\<open>data-action\<close> attribute.\<close>

definition discover_action :: "element \<Rightarrow> CommandRecognizer \<Rightarrow> string \<Rightarrow> CommandRecognizer" where
  "discover_action el r action =
     (case match_speak action of
        None \<Rightarrow> r
      | Some m \<Rightarrow> register (map (\<lambda>c. if c = CHR ''_'' then CHR '' '' else c) m) el r)"

definition discoverCommands :: "(element \<times> string) list \<Rightarrow> CommandRecognizer \<Rightarrow> CommandRecognizer" where
  "discoverCommands nodes r =
     foldl (\<lambda>r (el, attr). foldl (discover_action el) r (split_ws [] attr)) r nodes"

definition new_SpeakThen :: "(element \<times> string) list \<Rightarrow> options \<Rightarrow> SpeakThen" where
  "new_SpeakThen nodes opts =
     (let cfg = \<lparr> basePath = str_or (opt_basePath opts) ''/models'',
                  wakeModel = str_or (opt_wakeModel opts) ''hey_jarvis_v0.1.onnx'',
                  confidence = num_or (opt_confidence opts) (1 / 2),
                  sleepAfter = num_or (opt_sleepAfter opts) 5000,
                  lang = str_or (opt_lang opts) ''en-US'',
                  onWake = opt_onWake opts,
                  onSleep = opt_onSleep opts,
                  onError = opt_onError opts \<rparr>
      in \<lparr> config = cfg, state = Sleeping, sleepTimer = None, started = False,
           wakeDetector =
             new_WakeWordDetector (basePath cfg) (wakeModel cfg) (confidence cfg) (onError cfg),
           commandRecognizer =
             discoverCommands nodes (new_CommandRecognizer (lang cfg) (onError cfg)),
           trace = [] \<rparr>)"

section \<open>Frame processing\<close>

text \<open>
  \<^verbatim>\<open>processFrame\<close> is asynchronous: it runs up to an \<^verbatim>\<open>await\<close> on one of the three
  sessions and is resumed with the settled result. A suspended call is a \<open>pending\<close>
  value holding the data of the tensor given to the session; the functions below are the
  synchronous stretches between two suspensions, each returning the next suspension
  (\<open>None\<close> when the call has returned) and the new state.
\<close>

datatype pending = AwaitMel "real list" | AwaitEmb "real list" | AwaitWake "real list"

text \<open>The \<^verbatim>\<open>catch\<close> block.\<close>

definition caught :: "error \<Rightarrow> SpeakThen \<Rightarrow> SpeakThen" where
  "caught e s =
     (let s1 = log (WakeWordError e) s
      in if d_onError (wakeDetector s1) then log (OnError e) s1 else s1)"

text \<open>The worklet's message handler: \<^verbatim>\<open>this.running && this.processFrame(e.data)\<close>.\<close>

definition onmessage :: "real list \<Rightarrow> SpeakThen \<Rightarrow> pending option \<times> SpeakThen" where
  "onmessage samples s =
     (if running (wakeDetector s) then (Some (AwaitMel samples), s) else (None, s))"

text \<open>The head of the \<^verbatim>\<open>while\<close> loop, up to the call of the embedding session.\<close>

definition loop_head :: "SpeakThen \<Rightarrow> pending option \<times> SpeakThen" where
  "loop_head s =
     (let d = wakeDetector s in
      if length (melFrames d) \<ge> MELSPEC_WINDOW then
        (case set_rows (melInputBuffer d) 32 0 (take MELSPEC_WINDOW (melFrames d)) of
           (Some e, buf) \<Rightarrow> (None, caught e (s\<lparr>wakeDetector := d\<lparr>melInputBuffer := buf\<rparr>\<rparr>))
         | (None, buf) \<Rightarrow> (Some (AwaitEmb buf), s\<lparr>wakeDetector := d\<lparr>melInputBuffer := buf\<rparr>\<rparr>))
      else (None, s))"

text \<open>After the spectrogram session settles: queue the frames, enter the loop.\<close>

definition after_mel :: "error + real list \<Rightarrow> SpeakThen \<Rightarrow> pending option \<times> SpeakThen" where
  "after_mel r s =
     (case r of
        Inl e \<Rightarrow> (None, caught e s)
      | Inr melData \<Rightarrow>
          loop_head (s\<lparr>wakeDetector :=
            (wakeDetector s)\<lparr>melFrames := melFrames (wakeDetector s) @ mel_frames melData\<rparr>\<rparr>))"

text \<open>After the embedding session settles: \<^verbatim>\<open>push\<close>, \<^verbatim>\<open>splice(0, 8)\<close>, and with 16
  embeddings queued the call of the classifier on the last 16.\<close>

definition after_emb :: "error + real list \<Rightarrow> SpeakThen \<Rightarrow> pending option \<times> SpeakThen" where
  "after_emb r s =
     (case r of
        Inl e \<Rightarrow> (None, caught e s)
      | Inr embData \<Rightarrow>
          let d = wakeDetector s;
              d1 = d\<lparr>embeddingBuffer := embeddingBuffer d @ [embData],
                     melFrames := drop 8 (melFrames d)\<rparr>
          in if length (embeddingBuffer d1) \<ge> 16 then
               (case set_rows (embInputBuffer d1) 96 0
                       (drop (length (embeddingBuffer d1) - 16) (embeddingBuffer d1)) of
                  (Some e, buf) \<Rightarrow> (None, caught e (s\<lparr>wakeDetector := d1\<lparr>embInputBuffer := buf\<rparr>\<rparr>))
                | (None, buf) \<Rightarrow> (Some (AwaitWake buf), s\<lparr>wakeDetector := d1\<lparr>embInputBuffer := buf\<rparr>\<rparr>))
             else loop_head (s\<lparr>wakeDetector := d1\<rparr>))"

text \<open>After the classifier settles: the score is the first value of the output (absent
  in an empty output, and then no comparison holds); \<^verbatim>\<open>this.onDetection?.(score)\<close> runs
  \<^verbatim>\<open>wake()\<close>; the embedding queue is cut to its last 16 once it holds more than 32.\<close>

definition after_wake :: "env \<Rightarrow> error + real list \<Rightarrow> SpeakThen \<Rightarrow> pending option \<times> SpeakThen" where
  "after_wake E r s =
     (case r of
        Inl e \<Rightarrow> (None, caught e s)
      | Inr tensorData \<Rightarrow>
          let s1 = (case tensorData of
                      [] \<Rightarrow> s
                    | score # _ \<Rightarrow>
                        if score \<ge> d_confidence (wakeDetector s) \<and> onDetection (wakeDetector s)
                        then wake E (log (OnDetection score) s)
                        else s);
              d = wakeDetector s1;
              s2 = (if length (embeddingBuffer d) > 32
                    then s1\<lparr>wakeDetector :=
                           d\<lparr>embeddingBuffer :=
                               drop (length (embeddingBuffer d) - 16) (embeddingBuffer d)\<rparr>\<rparr>
                    else s1)
          in loop_head s2)"

text \<open>Resuming a suspended call with the result of the session it waits for.\<close>

definition resume_frame ::
  "env \<Rightarrow> pending \<Rightarrow> error + real list \<Rightarrow> SpeakThen \<Rightarrow> pending option \<times> SpeakThen" where
  "resume_frame E p r s =
     (case p of
        AwaitMel _ \<Rightarrow> after_mel r s
      | AwaitEmb _ \<Rightarrow> after_emb r s
      | AwaitWake _ \<Rightarrow> after_wake E r s)"

text \<open>What the session a call waits for answers.\<close>

definition settle :: "env \<Rightarrow> pending \<Rightarrow> error + real list" where
  "settle E p =
     (case p of
        AwaitMel x \<Rightarrow> mel_run E x
      | AwaitEmb x \<Rightarrow> emb_run E x
      | AwaitWake x \<Rightarrow> wake_run E x)"

text \<open>A call of \<^verbatim>\<open>processFrame\<close> that nothing interleaves with: every suspension is
  resumed at once with the answer of its session. The loop ends because each pass
  removes frames from a queue that holds at least 76 of them; the two functions below
  are the measure of that argument.\<close>

definition frame_measure :: "pending option \<times> SpeakThen \<Rightarrow> nat" where
  "frame_measure ps =
     (let n = length (melFrames (wakeDetector (snd ps))) in
      case fst ps of
        None \<Rightarrow> 0
      | Some (AwaitMel _) \<Rightarrow> 0
      | Some (AwaitEmb _) \<Rightarrow> 2 * n + 2
      | Some (AwaitWake _) \<Rightarrow> if MELSPEC_WINDOW \<le> n then 2 * n + 3 else 1)"

definition is_mel :: "pending option \<times> SpeakThen \<Rightarrow> nat" where
  "is_mel ps = (case fst ps of Some (AwaitMel _) \<Rightarrow> 1 | _ \<Rightarrow> 0)"

function run_frame :: "env \<Rightarrow> pending option \<times> SpeakThen \<Rightarrow> SpeakThen" where
  "run_frame E (None, s) = s"
| "run_frame E (Some p, s) = run_frame E (resume_frame E p (settle E p) s)"
  by pat_completeness auto

text \<open>Its termination: no stretch suspends on the spectrogram session again, and every
  stretch of the loop lowers the measure.\<close>

lemma melFrames_wake: "melFrames (wakeDetector (wake E s)) = melFrames (wakeDetector s)"
  by (simp add: wake_def Let_def resetSleepTimer_def recognizer_start_def log_def pause_def)

lemma loop_head_measure:
  "frame_measure (loop_head s) \<le>
     (if MELSPEC_WINDOW \<le> length (melFrames (wakeDetector s))
      then 2 * length (melFrames (wakeDetector s)) + 2 else 0)"
  by (simp add: loop_head_def frame_measure_def Let_def split: prod.splits option.splits)

lemma is_mel_simps:
  "is_mel (None, s) = 0" "is_mel (Some (AwaitEmb x), s) = 0" "is_mel (Some (AwaitWake x), s) = 0"
  "is_mel (Some (AwaitMel x), s) = 1"
  by (simp_all add: is_mel_def)

lemma loop_head_not_mel: "is_mel (loop_head s) = 0"
  by (simp add: loop_head_def is_mel_simps Let_def split: prod.splits option.splits)

lemma after_mel_not_mel: "is_mel (after_mel r s) = 0"
  by (cases r) (simp_all add: after_mel_def loop_head_not_mel is_mel_simps)

lemma after_emb_not_mel: "is_mel (after_emb r s) = 0"
  by (cases r) (simp_all add: after_emb_def loop_head_not_mel is_mel_simps Let_def split: prod.splits option.splits)

lemma after_wake_not_mel: "is_mel (after_wake E r s) = 0"
  by (cases r) (simp_all add: after_wake_def loop_head_not_mel is_mel_simps Let_def)

lemma frame_measure_simps:
  "frame_measure (None, s) = 0"
  "frame_measure (Some (AwaitEmb x), s) = 2 * length (melFrames (wakeDetector s)) + 2"
  "frame_measure (Some (AwaitWake x), s) =
     (if MELSPEC_WINDOW \<le> length (melFrames (wakeDetector s))
      then 2 * length (melFrames (wakeDetector s)) + 3 else 1)"
  by (simp_all add: frame_measure_def)

lemma after_emb_measure:
  "frame_measure (after_emb r s) < 2 * length (melFrames (wakeDetector s)) + 2"
proof (cases r)
  case (Inl e)
  then show ?thesis by (simp add: after_emb_def frame_measure_simps)
next
  case (Inr embData)
  let ?s1 = "s\<lparr>wakeDetector := (wakeDetector s)\<lparr>embeddingBuffer := embeddingBuffer (wakeDetector s) @ [embData],
                     melFrames := drop 8 (melFrames (wakeDetector s))\<rparr>\<rparr>"
  have "frame_measure (loop_head ?s1) < 2 * length (melFrames (wakeDetector s)) + 2"
    using loop_head_measure [of ?s1] by (simp add: MELSPEC_WINDOW_def split: if_splits)
  with Inr show ?thesis
    by (auto simp add: after_emb_def frame_measure_simps Let_def MELSPEC_WINDOW_def
             split: prod.splits option.splits)
qed

lemma after_wake_measure:
  "frame_measure (after_wake E r s) <
     (if MELSPEC_WINDOW \<le> length (melFrames (wakeDetector s))
      then 2 * length (melFrames (wakeDetector s)) + 3 else 1)"
proof (cases r)
  case (Inl e)
  then show ?thesis by (simp add: after_wake_def frame_measure_simps)
next
  case (Inr tensorData)
  show ?thesis
    unfolding after_wake_def Inr sum.case Let_def
    by (rule le_less_trans [OF loop_head_measure])
       (simp add: melFrames_wake log_def split: list.splits)
qed

termination run_frame
proof (relation "inv_image (less_than <*lex*> less_than) (\<lambda>(E, ps). (is_mel ps, frame_measure ps))")
  show "wf (inv_image (less_than <*lex*> less_than) (\<lambda>(E, ps). (is_mel ps, frame_measure ps)))"
    by (intro wf_inv_image wf_lex_prod wf_less_than)
next
  fix E p s
  show "((E, resume_frame E p (settle E p) s), E, Some p, s)
        \<in> inv_image (less_than <*lex*> less_than) (\<lambda>(E, ps). (is_mel ps, frame_measure ps))"
  proof (cases p)
    case (AwaitMel x)
    then show ?thesis
      by (simp add: resume_frame_def after_mel_not_mel is_mel_simps)
  next
    case (AwaitEmb x)
    then show ?thesis
      using after_emb_measure [of "settle E p" s]
      by (simp add: resume_frame_def after_emb_not_mel is_mel_simps frame_measure_simps)
  next
    case (AwaitWake x)
    then show ?thesis
      using after_wake_measure [of E "settle E p" s]
      by (simp add: resume_frame_def after_wake_not_mel is_mel_simps frame_measure_simps)
  qed
qed

definition processFrame :: "env \<Rightarrow> real list \<Rightarrow> SpeakThen \<Rightarrow> SpeakThen" where
  "processFrame E samples s = run_frame E (Some (AwaitMel samples), s)"

section \<open>Sequences of events\<close>

text \<open>
  What can happen to an instance: calls of its public methods, the pending timeout
  firing, an audio frame posted by the worklet (delivered only once a worklet node with
  its handler exists, and then run to the end of \<^verbatim>\<open>processFrame\<close>), and a recognition
  result (delivered only once a recognition object with its handler exists). A rejected
  \<^verbatim>\<open>start()\<close> leaves the state it reached.
\<close>

datatype op =
    Start | Stop | Wake | Sleep | ResetSleepTimer | TimerFires
  | Message "real list" | Result string | Register string element

definition apply_op :: "env \<Rightarrow> SpeakThen \<Rightarrow> op \<Rightarrow> SpeakThen" where
  "apply_op E s x =
     (case x of
        Start \<Rightarrow> snd (start E s)
      | Stop \<Rightarrow> stop s
      | Wake \<Rightarrow> wake E s
      | Sleep \<Rightarrow> sleep s
      | ResetSleepTimer \<Rightarrow> resetSleepTimer s
      | TimerFires \<Rightarrow> timer_fires s
      | Message samples \<Rightarrow>
          (if worklet (wakeDetector s) = None then s else run_frame E (onmessage samples s))
      | Result raw \<Rightarrow> (if recognition (commandRecognizer s) then onresult raw s else s)
      | Register phrase el \<Rightarrow> s\<lparr>commandRecognizer := register phrase el (commandRecognizer s)\<rparr>)"

definition run :: "env \<Rightarrow> op list \<Rightarrow> SpeakThen \<Rightarrow> SpeakThen" where
  "run E ops s = foldl (apply_op E) s ops"

subsection \<open>Calls that overlap\<close>

text \<open>
  The handler of the worklet does not wait for \<^verbatim>\<open>processFrame\<close>
  (\<^verbatim>\<open>this.running && this.processFrame(e.data)\<close>), and the public methods are synchronous
  calls; so between two stretches of one call of \<^verbatim>\<open>processFrame\<close> other calls may run
  their stretches and methods may be called. A world is an instance together with the
  calls of \<^verbatim>\<open>processFrame\<close> in flight, in the order in which they were started. In a world
  an event is applied as above, except that a posted frame only starts its call; and the
  session awaited by the \<open>i\<close>-th call in flight may answer, which runs the next stretch of
  that call and takes the call off the list when it has returned. Every stretch runs from
  one \<^verbatim>\<open>await\<close> to the next without interruption.
\<close>

datatype action = Event op | Settle nat

definition act :: "env \<Rightarrow> SpeakThen \<times> pending list \<Rightarrow> action \<Rightarrow> SpeakThen \<times> pending list" where
  "act E w a =
     (let s = fst w; calls = snd w in
      case a of
        Event x \<Rightarrow>
          (case x of
             Message samples \<Rightarrow>
               (if worklet (wakeDetector s) = None then w
                else case onmessage samples s of
                       (None, s') \<Rightarrow> (s', calls)
                     | (Some p, s') \<Rightarrow> (s', calls @ [p]))
           | _ \<Rightarrow> (apply_op E s x, calls))
      | Settle i \<Rightarrow>
          (if i < length calls then
             (case resume_frame E (calls ! i) (settle E (calls ! i)) s of
                (None, s') \<Rightarrow> (s', take i calls @ drop (Suc i) calls)
              | (Some q, s') \<Rightarrow> (s', calls[i := q]))
           else w))"

definition schedule ::
  "env \<Rightarrow> action list \<Rightarrow> SpeakThen \<times> pending list \<Rightarrow> SpeakThen \<times> pending list" where
  "schedule E as w = foldl (act E) w as"

section \<open>Notions used in the statements\<close>

subsection \<open>Projections of the trace and predicates on states\<close>

text \<open>A registry built by a sequence of \<^verbatim>\<open>register\<close> calls, the elements that receive
  the event of one phrase in a list of events, the events an operation appends to the
  trace, and the elements a command map holds for a key.\<close>

definition register_all :: "(string \<times> element) list \<Rightarrow> CommandRecognizer \<Rightarrow> CommandRecognizer" where
  "register_all regs r = foldl (\<lambda>r (phrase, el). register phrase el r) r regs"

fun dispatched :: "string \<Rightarrow> event list \<Rightarrow> element list" where
  "dispatched k [] = []"
| "dispatched k (DispatchEvent el phrase t # evs) =
     (if phrase = k then el # dispatched k evs else dispatched k evs)"
| "dispatched k (_ # evs) = dispatched k evs"

definition new_events :: "SpeakThen \<Rightarrow> SpeakThen \<Rightarrow> event list" where
  "new_events s s' = drop (length (trace s)) (trace s')"

definition targets :: "(string \<times> element list) list \<Rightarrow> string \<Rightarrow> element list" where
  "targets m k = concat (map snd (filter (\<lambda>kv. fst kv = k) m))"

text \<open>An instance is deaf when no recognition object has ever been created and no command
  event has been dispatched.\<close>

fun is_dispatch :: "event \<Rightarrow> bool" where
  "is_dispatch (DispatchEvent el phrase t) = True"
| "is_dispatch _ = False"

definition deaf :: "SpeakThen \<Rightarrow> bool" where
  "deaf s = (\<not> recognition (commandRecognizer s) \<and> filter is_dispatch (trace s) = [])"

text \<open>Every error caught by \<^verbatim>\<open>processFrame\<close> is logged by its \<^verbatim>\<open>catch\<close> block, so the
  number of logged wake-word errors tells whether a call ran to the end of its loop.\<close>

fun is_wake_word_error :: "event \<Rightarrow> bool" where
  "is_wake_word_error (WakeWordError e) = True"
| "is_wake_word_error _ = False"

definition errors_caught :: "SpeakThen \<Rightarrow> nat" where
  "errors_caught s = length (filter is_wake_word_error (trace s))"

text \<open>The number of embeddings a suspended call may hold without having caught an error:
  one more while it waits for the classifier, since the \<^verbatim>\<open>push\<close> comes before the cut.\<close>

definition queue_bound :: "pending option \<Rightarrow> nat" where
  "queue_bound q = (case q of Some (AwaitWake _) \<Rightarrow> 33 | _ \<Rightarrow> 32)"

text \<open>The length of the embedding queue, and the number of calls in flight that wait for
  the classifier: each of them has pushed an embedding that no cut has followed yet, the
  one entry by which the bound of such a call exceeds 32.\<close>

abbreviation qlen :: "SpeakThen \<Rightarrow> nat" where
  "qlen s \<equiv> length (embeddingBuffer (wakeDetector s))"

fun awaits_classifier :: "pending \<Rightarrow> bool" where
  "awaits_classifier (AwaitWake x) = True"
| "awaits_classifier _ = False"

definition awaiting :: "pending list \<Rightarrow> nat" where
  "awaiting calls = length (filter awaits_classifier calls)"

definition excess :: "pending option \<Rightarrow> nat" where
  "excess q = queue_bound q - 32"

text \<open>
  A stretch fails late when it reaches the \<^verbatim>\<open>catch\<close> block after the \<^verbatim>\<open>push\<close> and before
  the cut: the embedding session has answered and, with at least 16 embeddings then
  queued, filling the input of the classifier throws; or the classifier rejects. An error
  caught anywhere else (a rejected spectrogram or embedding session, a throw while the
  window of the embedding session is filled) is not late. The late failures of a list of
  actions are counted along the worlds it runs through.
\<close>

definition fails_late :: "env \<Rightarrow> pending \<Rightarrow> SpeakThen \<Rightarrow> bool" where
  "fails_late E p s =
     (case p of
        AwaitMel x \<Rightarrow> False
      | AwaitEmb x \<Rightarrow>
          (case emb_run E x of
             Inl e \<Rightarrow> False
           | Inr e \<Rightarrow> 15 \<le> length (embeddingBuffer (wakeDetector s))
                      \<and> fst (after_emb (Inr e) s) = None)
      | AwaitWake x \<Rightarrow> (case wake_run E x of Inl e \<Rightarrow> True | Inr out \<Rightarrow> False))"

definition late :: "env \<Rightarrow> SpeakThen \<times> pending list \<Rightarrow> action \<Rightarrow> bool" where
  "late E w a =
     (case a of
        Event x \<Rightarrow> False
      | Settle i \<Rightarrow> i < length (snd w) \<and> fails_late E (snd w ! i) (fst w))"

fun late_count :: "env \<Rightarrow> SpeakThen \<times> pending list \<Rightarrow> action list \<Rightarrow> nat" where
  "late_count E w [] = 0"
| "late_count E w (a # as) = (if late E w a then 1 else 0) + late_count E (act E w a) as"

text \<open>The detector after \<^verbatim>\<open>push\<close> and \<^verbatim>\<open>splice(0, 8)\<close>; the state after
  \<^verbatim>\<open>this.onDetection?.(score)\<close>; the state after the cut that follows. They name the
  three steps of \<open>after_emb\<close> and \<open>after_wake\<close>.\<close>

definition pushed :: "real list \<Rightarrow> WakeWordDetector \<Rightarrow> WakeWordDetector" where
  "pushed e d = d\<lparr>embeddingBuffer := embeddingBuffer d @ [e], melFrames := drop 8 (melFrames d)\<rparr>"

definition detected :: "env \<Rightarrow> real list \<Rightarrow> SpeakThen \<Rightarrow> SpeakThen" where
  "detected E tensorData s =
     (case tensorData of
        [] \<Rightarrow> s
      | score # _ \<Rightarrow>
          if score \<ge> d_confidence (wakeDetector s) \<and> onDetection (wakeDetector s)
          then wake E (log (OnDetection score) s)
          else s)"

definition trimmed :: "SpeakThen \<Rightarrow> SpeakThen" where
  "trimmed s =
     (if length (embeddingBuffer (wakeDetector s)) > 32
      then s\<lparr>wakeDetector := (wakeDetector s)
             \<lparr>embeddingBuffer := drop (length (embeddingBuffer (wakeDetector s)) - 16)
                                      (embeddingBuffer (wakeDetector s))\<rparr>\<rparr>
      else s)"

subsection \<open>Concrete browsers\<close>

text \<open>An options object that sets the three callbacks and nothing else, and a browser
  in which everything succeeds: the spectrogram session answers one frame of 32 values
  per input sample, the embedding session 96 values, the classifier the score 0.9.\<close>

definition no_options :: options where
  "no_options = \<lparr> opt_basePath = None, opt_wakeModel = None, opt_confidence = None,
                   opt_sleepAfter = None, opt_lang = None,
                   opt_onWake = True, opt_onSleep = True, opt_onError = True \<rparr>"

definition test_env :: env where
  "test_env = \<lparr> create_session = (\<lambda>_. None),
                 mel_run = (\<lambda>x. Inr (replicate (32 * length x) 0)),
                 emb_run = (\<lambda>_. Inr (replicate 96 0)),
                 wake_run = (\<lambda>_. Inr [9 / 10]),
                 getUserMedia = None, addModule = None, SR = True \<rparr>"

text \<open>The same browser without a speech recogniser, with an embedding session that
  rejects every call, and with a classifier that rejects every call.\<close>

definition deaf_env :: env where
  "deaf_env = test_env\<lparr>SR := False\<rparr>"

definition emb_failing_env :: env where
  "emb_failing_env = test_env\<lparr>emb_run := (\<lambda>_. Inl (Error ''inference failed''))\<rparr>"

definition failing_env :: env where
  "failing_env = test_env\<lparr>wake_run := (\<lambda>_. Inl (Error ''inference failed''))\<rparr>"

text \<open>The succeeding browser with a classifier that answers the score 0.125, below the
  default confidence.\<close>

definition quiet_env :: env where
  "quiet_env = test_env\<lparr>wake_run := (\<lambda>_. Inr [1 / 8])\<rparr>"

subsection \<open>Concrete instances\<close>

text \<open>A started instance in the succeeding browser; the same instance woken; the woken
  instance stopped and started again.\<close>

definition started_instance :: SpeakThen where
  "started_instance = snd (start test_env (new_SpeakThen [] no_options))"

definition awake_instance :: SpeakThen where
  "awake_instance = wake test_env started_instance"

definition restarted_instance :: SpeakThen where
  "restarted_instance = snd (start test_env (stop awake_instance))"

text \<open>An instance whose commands are discovered from three elements, started and
  woken, and the registrations its constructor makes.\<close>

definition cmd_nodes :: "(element \<times> string) list" where
  "cmd_nodes = [(1, ''speak:play_music->player#play''),
                (2, ''click->x#y  speak:Stop->player#stop''),
                (3, ''speak:Play_Music->other#go'')]"

definition cmd_regs :: "(string \<times> element) list" where
  "cmd_regs = [(''play music'', 1), (''Stop'', 2), (''Play Music'', 3)]"

definition cmd_instance :: SpeakThen where
  "cmd_instance = wake test_env (snd (start test_env (new_SpeakThen cmd_nodes no_options)))"

text \<open>
  With the sessions of the succeeding browser every spectrogram frame is 32 times the
  value 2 and every embedding 96 times the value 0. A state is queued with \<open>n\<close> and \<open>k\<close>
  when it holds \<open>n\<close> such frames and \<open>k\<close> such embeddings and its two buffers have their
  allocated lengths; it is primed when, in addition, the detector is running on a worklet.
\<close>

definition queued :: "nat \<Rightarrow> nat \<Rightarrow> SpeakThen \<Rightarrow> bool" where
  "queued n k s =
     (melFrames (wakeDetector s) = replicate n (replicate 32 2)
      \<and> embeddingBuffer (wakeDetector s) = replicate k (replicate 96 0)
      \<and> length (melInputBuffer (wakeDetector s)) = MELSPEC_WINDOW * 32
      \<and> length (embInputBuffer (wakeDetector s)) = 16 * 96)"

definition primed :: "nat \<Rightarrow> nat \<Rightarrow> SpeakThen \<Rightarrow> bool" where
  "primed n k s =
     (worklet (wakeDetector s) \<noteq> None \<and> running (wakeDetector s) \<and> queued n k s)"

text \<open>The state after a pass of the loop has left \<open>n\<close> frames and \<open>k\<close> embeddings, and
  the state in which the classifier is then called.\<close>

definition with_queues :: "nat \<Rightarrow> nat \<Rightarrow> SpeakThen \<Rightarrow> SpeakThen" where
  "with_queues n k s =
     s\<lparr>wakeDetector := (wakeDetector s)
          \<lparr>melFrames := replicate n (replicate 32 2),
            embeddingBuffer := replicate k (replicate 96 0),
            melInputBuffer := concat (replicate 76 (replicate 32 2))\<rparr>\<rparr>"

definition classifying :: "SpeakThen \<Rightarrow> SpeakThen" where
  "classifying s =
     s\<lparr>wakeDetector := (wakeDetector s)
          \<lparr>embInputBuffer := concat (replicate 16 (replicate 96 0))\<rparr>\<rparr>"

text \<open>The started instance after a first frame that yields 72 spectrogram frames, and
  after 15 further frames of 8 spectrogram frames each.\<close>

definition warm_instance :: SpeakThen where
  "warm_instance = apply_op test_env started_instance (Message (replicate 72 0))"

definition hot_instance :: SpeakThen where
  "hot_instance = run test_env (replicate 15 (Message (replicate 8 0))) warm_instance"

text \<open>The sixteenth frame is delivered to the instance that has processed fifteen; while
  its call of \<^verbatim>\<open>processFrame\<close> waits for the spectrogram session, \<^verbatim>\<open>stop()\<close> is called;
  then the call runs to its end.\<close>

definition stale_instance :: SpeakThen where
  "stale_instance = run_frame test_env (Some (AwaitMel (replicate 8 0)), stop hot_instance)"


text \<open>The state in which the embedding session is called when 8 frames arrive with 72
  queued: 80 frames, and the window of the oldest 76 in the buffer.\<close>

definition windowed :: "SpeakThen \<Rightarrow> SpeakThen" where
  "windowed s =
     s\<lparr>wakeDetector := (wakeDetector s)
          \<lparr>melFrames := replicate 80 (replicate 32 2),
            melInputBuffer := concat (replicate 76 (replicate 32 2))\<rparr>\<rparr>"

text \<open>The instance of the quiet browser after 32 further frames of 8 spectrogram frames
  each: 32 embeddings are queued.\<close>

definition full_instance :: SpeakThen where
  "full_instance = run quiet_env (replicate 32 (Message (replicate 8 0))) warm_instance"

text \<open>
  Two lists of actions. In the first a frame is posted, the spectrogram and the embedding
  session answer its call, which then waits for the classifier; a second (empty) frame is
  posted and its call runs to its end; then the classifier answers the first call. In the
  second a frame is posted and the spectrogram session answers; while the call waits for
  the embedding session, \<^verbatim>\<open>wake()\<close> and \<^verbatim>\<open>sleep()\<close> are called; then the embedding
  session answers.
\<close>

definition overlapping_calls :: "action list" where
  "overlapping_calls =
     [Event (Message (replicate 8 0)), Settle 0, Settle 0, Event (Message []), Settle 1, Settle 0]"


section \<open>Construction-time defaults\<close>

text \<open>
  C10. The constructor applies its defaults with \<^verbatim>\<open>||\<close>: a confidence that is absent or
  0 becomes 0.5 and a \<^verbatim>\<open>sleepAfter\<close> that is absent or 0 becomes 5000, so neither the
  configured confidence (also as handed to the detector) nor the configured timeout is
  ever 0.
\<close>

theorem constructor_defaults_on_falsy:
  "(opt_confidence opts \<in> {None, Some 0} \<longrightarrow> confidence (config (new_SpeakThen nodes opts)) = 1 / 2)
   \<and> (opt_sleepAfter opts \<in> {None, Some 0} \<longrightarrow> sleepAfter (config (new_SpeakThen nodes opts)) = 5000)
   \<and> confidence (config (new_SpeakThen nodes opts)) \<noteq> 0
   \<and> d_confidence (wakeDetector (new_SpeakThen nodes opts)) \<noteq> 0
   \<and> sleepAfter (config (new_SpeakThen nodes opts)) \<noteq> 0"
  by (auto simp: new_SpeakThen_def Let_def num_or_def new_WakeWordDetector_def split: option.splits)

theorem constructor_defaults_on_falsy_witness:
  "opt_confidence (no_options\<lparr>opt_confidence := Some 0, opt_sleepAfter := Some 0\<rparr>) \<in> {None, Some 0}
   \<and> opt_sleepAfter (no_options\<lparr>opt_confidence := Some 0, opt_sleepAfter := Some 0\<rparr>) \<in> {None, Some 0}
   \<and> confidence (config (new_SpeakThen [] (no_options\<lparr>opt_confidence := Some 0, opt_sleepAfter := Some 0\<rparr>))) = 1 / 2
   \<and> sleepAfter (config (new_SpeakThen [] (no_options\<lparr>opt_confidence := Some 0, opt_sleepAfter := Some 0\<rparr>))) = 5000"
  using constructor_defaults_on_falsy [of "no_options\<lparr>opt_confidence := Some 0, opt_sleepAfter := Some 0\<rparr>" "[]"]
  by simp

section \<open>Starting twice\<close>

lemma start_test_env_fresh:
  "start test_env (new_SpeakThen [] no_options)
     = (None, (new_SpeakThen [] no_options)
          \<lparr>wakeDetector := (wakeDetector (new_SpeakThen [] no_options))
             \<lparr>sessions := True, onDetection := True, running := True,
               stream := Some Active, audioContext := Some Active,
               worklet := Some Active, initialized := True\<rparr>,
           started := True\<rparr>)"
  by (simp add: start_def new_SpeakThen_def Let_def initialize_def detector_start_def
      new_WakeWordDetector_def test_env_def no_options_def discoverCommands_def)

text \<open>
  C8. \<^verbatim>\<open>start()\<close> on a started instance rejects with the error
  \<^verbatim>\<open>SpeakThen already started. Call stop() first.\<close> and leaves the whole state (session
  state, registered commands, detector) as it was.
\<close>

theorem start_twice_raises:
  "started s \<Longrightarrow> start E s = (Some (Error ''SpeakThen already started. Call stop() first.''), s)"
  by (simp add: start_def)

theorem start_twice_raises_witness:
  "fst (start test_env (new_SpeakThen [] no_options)) = None
   \<and> started (snd (start test_env (new_SpeakThen [] no_options)))
   \<and> start test_env (snd (start test_env (new_SpeakThen [] no_options)))
       = (Some (Error ''SpeakThen already started. Call stop() first.''),
          snd (start test_env (new_SpeakThen [] no_options)))"
proof -
  have a: "fst (start test_env (new_SpeakThen [] no_options)) = None"
    by (simp add: start_test_env_fresh)
  have b: "started (snd (start test_env (new_SpeakThen [] no_options)))"
    by (simp add: start_test_env_fresh)
  show ?thesis
    using a b start_twice_raises [OF b, of test_env] by simp
qed

section \<open>The session state machine\<close>

lemma state_wake: "state (wake E s) = Awake"
  by (simp add: wake_def Let_def resetSleepTimer_def recognizer_start_def log_def)


lemma trace_wake:
  "state s = Sleeping \<Longrightarrow>
   trace (wake E s) = trace s @ (if onWake (config s) then [OnWake] else [])
      @ (if SR E then [RecognitionStart]
         else ConsoleError ''Speech recognition not supported in this browser''
              # (if r_onError (commandRecognizer s)
                 then [OnError (Error ''Speech recognition not supported in this browser'')] else []))"
  by (simp add: wake_def Let_def resetSleepTimer_def recognizer_start_def log_def)


lemma started_instance_fields:
  "state started_instance = Sleeping"
  "trace started_instance = []"
  "started started_instance"
  "sleepTimer started_instance = None"
  "onWake (config started_instance)"
  "onSleep (config started_instance)"
  "onError (config started_instance)"
  "sleepAfter (config started_instance) = 5000"
  "commands (commandRecognizer started_instance) = []"
  "r_onError (commandRecognizer started_instance)"
  "\<not> recognition (commandRecognizer started_instance)"
  "running (wakeDetector started_instance)"
  "initialized (wakeDetector started_instance)"
  "onDetection (wakeDetector started_instance)"
  "d_onError (wakeDetector started_instance)"
  "d_confidence (wakeDetector started_instance) = 1 / 2"
  "worklet (wakeDetector started_instance) = Some Active"
  "melFrames (wakeDetector started_instance) = []"
  "embeddingBuffer (wakeDetector started_instance) = []"
  "melInputBuffer (wakeDetector started_instance) = replicate (MELSPEC_WINDOW * 32) 0"
  "embInputBuffer (wakeDetector started_instance) = replicate (16 * 96) 0"
  unfolding started_instance_def start_test_env_fresh
  by (simp_all add: new_SpeakThen_def Let_def no_options_def new_WakeWordDetector_def
      discoverCommands_def new_CommandRecognizer_def num_or_def str_or_def)

lemma SR_test_env: "SR test_env"
  by (simp add: test_env_def)




section \<open>Command dispatch\<close>

lemma dispatched_append: "dispatched k (xs @ ys) = dispatched k xs @ dispatched k ys"
  by (induction k xs rule: dispatched.induct) simp_all

lemma dispatched_map_same:
  "dispatched k (map (\<lambda>el. DispatchEvent el k t) els) = els"
  by (induction els) simp_all

lemma dispatched_map_other:
  "phrase \<noteq> k \<Longrightarrow> dispatched k (map (\<lambda>el. DispatchEvent el phrase t) els) = []"
  by (induction els) simp_all

lemma dispatched_dispatches:
  "dispatched k (dispatches m t) = (if str_includes t k then targets m k else [])"
proof (induction m)
  case Nil
  show ?case by (simp add: dispatches_def targets_def)
next
  case (Cons kv m)
  obtain phrase els where kv: "kv = (phrase, els)" by (cases kv)
  have step: "dispatches (kv # m) t =
      (if str_includes t phrase then map (\<lambda>el. DispatchEvent el phrase t) els else [])
        @ dispatches m t"
    by (simp add: dispatches_def kv)
  show ?case
    unfolding step dispatched_append Cons.IH
    by (cases "phrase = k")
       (simp_all add: kv targets_def dispatched_map_same dispatched_map_other)
qed

lemma targets_absent: "k \<notin> set (map fst m) \<Longrightarrow> targets m k = []"
  by (induction m) (auto simp: targets_def)

lemma map_push_absent: "key \<notin> set (map fst m) \<Longrightarrow> map_push m key el = m"
  by (induction m) (auto simp: map_push_def)

lemma keys_map_push: "map fst (map_push m key el) = map fst m"
  by (induction m) (auto simp: map_push_def)

lemma targets_map_push:
  "distinct (map fst m) \<Longrightarrow>
   targets (map_push m key el) k
     = targets m k @ (if key = k \<and> key \<in> set (map fst m) then [el] else [])"
proof (induction m)
  case Nil
  show ?case by (simp add: targets_def map_push_def)
next
  case (Cons kv m)
  obtain k' els where kv: "kv = (k', els)" by (cases kv)
  from Cons.prems have d: "distinct (map fst m)" and nk: "k' \<notin> set (map fst m)"
    by (simp_all add: kv)
  have cons_push: "map_push ((k', els) # m) key el
       = (if k' = key then (k', els @ [el]) else (k', els)) # map_push m key el"
    by (simp add: map_push_def)
  have cons_t: "\<And>x m'. targets (x # m') k = (if fst x = k then snd x else []) @ targets m' k"
    by (simp add: targets_def)
  show ?case
    unfolding kv
  proof (cases "k' = key")
    case True
    with nk have "map_push m key el = m" by (simp add: map_push_absent)
    then have "map_push ((key, els) # m) key el = (key, els @ [el]) # m"
      by (simp add: map_push_def)
    moreover from nk True have "key = k \<Longrightarrow> targets m k = []"
      by (simp add: targets_absent)
    ultimately show "targets (map_push ((k', els) # m) key el) k
        = targets ((k', els) # m) k
            @ (if key = k \<and> key \<in> set (map fst ((k', els) # m)) then [el] else [])"
      using True by (simp add: cons_push cons_t)
  next
    case False
    then show "targets (map_push ((k', els) # m) key el) k
        = targets ((k', els) # m) k
            @ (if key = k \<and> key \<in> set (map fst ((k', els) # m)) then [el] else [])"
      using Cons.IH [OF d] by (auto simp add: cons_push cons_t)
  qed
qed

lemma targets_snoc_empty: "targets (m @ [(key, [])]) k = targets m k"
  by (simp add: targets_def)

lemma register_targets:
  assumes "distinct (map fst (commands r))"
  shows "distinct (map fst (commands (register phrase el r)))"
    and "targets (commands (register phrase el r)) k
           = targets (commands r) k @ (if toLowerCase phrase = k then [el] else [])"
proof -
  let ?key = "toLowerCase phrase"
  let ?m = "if \<not> map_has (commands r) ?key then commands r @ [(?key, [])] else commands r"
  have cmds: "commands (register phrase el r) = map_push ?m ?key el"
    by (simp add: register_def Let_def)
  have d: "distinct (map fst ?m)"
    using assms by (simp add: map_has_def)
  have has: "?key \<in> set (map fst ?m)"
    by (simp add: map_has_def)
  show "distinct (map fst (commands (register phrase el r)))"
    unfolding cmds keys_map_push by (rule d)
  have "targets (map_push ?m ?key el) k = targets ?m k @ (if ?key = k then [el] else [])"
    using targets_map_push [OF d, of ?key el k] has by simp
  moreover have "targets ?m k = targets (commands r) k"
    by (simp add: targets_snoc_empty)
  ultimately show "targets (commands (register phrase el r)) k
           = targets (commands r) k @ (if toLowerCase phrase = k then [el] else [])"
    unfolding cmds by simp
qed

lemma register_all_targets:
  "distinct (map fst (commands r)) \<Longrightarrow>
   distinct (map fst (commands (register_all regs r)))
   \<and> targets (commands (register_all regs r)) k
       = targets (commands r) k @ map snd (filter (\<lambda>pe. toLowerCase (fst pe) = k) regs)"
proof (induction regs arbitrary: r)
  case Nil
  then show ?case by (simp add: register_all_def)
next
  case (Cons pe regs)
  obtain p el where pe: "pe = (p, el)" by (cases pe)
  have unf: "register_all (pe # regs) r = register_all regs (register p el r)"
    by (simp add: register_all_def pe)
  show ?case
    unfolding unf
    using Cons.IH [OF register_targets(1) [OF Cons.prems, of p el]]
      register_targets(2) [OF Cons.prems, of p el k]
    by (simp add: pe)
qed

text \<open>
  C7. For a registry built by any sequence of registrations and a recogniser that has
  been started, the result handler lowercases and trims the transcript; for every key
  \<open>k\<close> that is a substring of it, the elements that receive \<^verbatim>\<open>speak:k\<close> are exactly
  the elements registered under a phrase whose lowercase is \<open>k\<close>, in registration
  order, and for every other key none; this holds for all keys at once, so one
  transcript can trigger several phrases; and \<^verbatim>\<open>onSpeech\<close> is called exactly once, with
  the normalised transcript, which re-arms the sleep timer.
\<close>

theorem onresult_dispatch:
  assumes regs: "commands (commandRecognizer s)
                   = commands (register_all regs (new_CommandRecognizer l oe))"
      and sp: "onSpeech (commandRecognizer s)"
  shows "trace (onresult raw s) = trace s @ new_events s (onresult raw s)
     \<and> (\<forall>k. dispatched k (new_events s (onresult raw s))
             = (if str_includes (toLowerCase (trim raw)) k
                then map snd (filter (\<lambda>pe. toLowerCase (fst pe) = k) regs)
                else []))
     \<and> filter (\<lambda>ev. \<exists>t. ev = OnSpeech t) (new_events s (onresult raw s))
           = [OnSpeech (toLowerCase (trim raw))]
     \<and> sleepTimer (onresult raw s) = Some (sleepAfter (config s))"
proof -
  let ?t = "toLowerCase (trim raw)"
  let ?m = "commands (commandRecognizer s)"
  have tr: "trace (onresult raw s) = trace s @ dispatches ?m ?t @ [OnSpeech ?t]"
    using sp by (simp add: onresult_def Let_def resetSleepTimer_def log_def)
  then have ne: "new_events s (onresult raw s) = dispatches ?m ?t @ [OnSpeech ?t]"
    by (simp add: new_events_def)
  have tg: "\<And>k. targets ?m k = map snd (filter (\<lambda>pe. toLowerCase (fst pe) = k) regs)"
    unfolding regs
    using register_all_targets [of "new_CommandRecognizer l oe" regs]
    by (simp add: new_CommandRecognizer_def targets_def)
  have no_speech: "filter (\<lambda>ev. \<exists>t. ev = OnSpeech t) (dispatches ?m ?t) = []"
    by (auto simp: dispatches_def filter_empty_conv split: if_splits)
  have timer: "sleepTimer (onresult raw s) = Some (sleepAfter (config s))"
    using sp by (simp add: onresult_def Let_def resetSleepTimer_def log_def)
  show ?thesis
    unfolding ne using tr timer no_speech
    by (simp add: dispatched_append dispatched_dispatches tg)
qed

lemma commands_wake: "commands (commandRecognizer (wake E s)) = commands (commandRecognizer s)"
  by (simp add: wake_def Let_def resetSleepTimer_def recognizer_start_def log_def)

lemma commands_start: "commands (commandRecognizer (snd (start E s))) = commands (commandRecognizer s)"
  by (simp add: start_def split: prod.splits option.splits)

lemma discover_cmd_nodes:
  "commands (discoverCommands cmd_nodes (new_CommandRecognizer ''en-US'' True))
     = [(''play music'', [1, 3]), (''stop'', [2])]"
  by code_simp

lemma register_cmd_regs:
  "commands (register_all cmd_regs (new_CommandRecognizer ''en-US'' True))
     = [(''play music'', [1, 3]), (''stop'', [2])]"
  by code_simp

lemma norm_ex: "toLowerCase (trim ''  Please PLAY Music and stop  '') = ''please play music and stop''"
  by code_simp

lemma incl_ex: "str_includes ''please play music and stop'' ''play music''"
   "str_includes ''please play music and stop'' ''stop''"
   "\<not> str_includes ''please play music and stop'' ''next''"
  by code_simp+

lemma regs_ex:
  "map snd (filter (\<lambda>pe. toLowerCase (fst pe) = ''play music'') cmd_regs) = [1, 3]"
  "map snd (filter (\<lambda>pe. toLowerCase (fst pe) = ''stop'') cmd_regs) = [2]"
  by code_simp+

lemma onSpeech_wake: "SR E \<Longrightarrow> state s = Sleeping \<Longrightarrow> onSpeech (commandRecognizer (wake E s))"
  by (simp add: wake_def Let_def resetSleepTimer_def recognizer_start_def log_def)

lemma state_start: "state (snd (start E s)) = state s"
  by (simp add: start_def split: prod.splits option.splits)

theorem onresult_dispatch_witness:
  "commands (commandRecognizer cmd_instance)
      = commands (register_all cmd_regs (new_CommandRecognizer ''en-US'' True))
   \<and> onSpeech (commandRecognizer cmd_instance)
   \<and> dispatched ''play music''
        (new_events cmd_instance (onresult ''  Please PLAY Music and stop  '' cmd_instance)) = [1, 3]
   \<and> dispatched ''stop''
        (new_events cmd_instance (onresult ''  Please PLAY Music and stop  '' cmd_instance)) = [2]
   \<and> filter (\<lambda>ev. \<exists>t. ev = OnSpeech t)
        (new_events cmd_instance (onresult ''  Please PLAY Music and stop  '' cmd_instance))
        = [OnSpeech ''please play music and stop'']"
proof -
  have cfg: "new_SpeakThen cmd_nodes no_options
      = (new_SpeakThen cmd_nodes no_options)
          \<lparr>commandRecognizer := discoverCommands cmd_nodes (new_CommandRecognizer ''en-US'' True)\<rparr>"
    by (simp add: new_SpeakThen_def Let_def no_options_def str_or_def)
  have c: "commands (commandRecognizer cmd_instance)
      = commands (register_all cmd_regs (new_CommandRecognizer ''en-US'' True))"
    unfolding cmd_instance_def commands_wake commands_start register_cmd_regs
    by (subst cfg) (simp add: discover_cmd_nodes)
  have st: "state (snd (start test_env (new_SpeakThen cmd_nodes no_options))) = Sleeping"
    unfolding state_start by (simp add: new_SpeakThen_def Let_def)
  have o: "onSpeech (commandRecognizer cmd_instance)"
    unfolding cmd_instance_def by (rule onSpeech_wake [OF SR_test_env st])
  note t = onresult_dispatch [OF c o, of "''  Please PLAY Music and stop  ''"]
  from t have d: "\<And>k. dispatched k
        (new_events cmd_instance (onresult ''  Please PLAY Music and stop  '' cmd_instance))
       = (if str_includes ''please play music and stop'' k
          then map snd (filter (\<lambda>pe. toLowerCase (fst pe) = k) cmd_regs) else [])"
    unfolding norm_ex by blast
  from t have f: "filter (\<lambda>ev. \<exists>t. ev = OnSpeech t)
        (new_events cmd_instance (onresult ''  Please PLAY Music and stop  '' cmd_instance))
        = [OnSpeech ''please play music and stop'']"
    unfolding norm_ex by blast
  show ?thesis
    using c o f d [of "''play music''"] d [of "''stop''"]
    by (simp only: incl_ex regs_ex if_True simp_thms)
qed


section \<open>A browser without speech recognition\<close>

lemma deaf_log: "\<not> is_dispatch e \<Longrightarrow> deaf (log e s) = deaf s"
  by (simp add: deaf_def log_def)

lemma deaf_detector: "deaf (s\<lparr>wakeDetector := d\<rparr>) = deaf s"
  by (simp add: deaf_def)

lemma deaf_caught: "deaf (caught e s) = deaf s"
  by (simp add: caught_def Let_def deaf_log)

lemma deaf_wake: "\<not> SR E \<Longrightarrow> deaf (wake E s) = deaf s"
  by (simp add: wake_def Let_def resetSleepTimer_def recognizer_start_def log_def deaf_def)

lemma deaf_sleep: "deaf s \<Longrightarrow> deaf (sleep s)"
  by (simp add: sleep_def Let_def recognizer_stop_def log_def deaf_def)

lemma deaf_stop: "deaf s \<Longrightarrow> deaf (stop s)"
  by (simp add: stop_def Let_def recognizer_stop_def log_def deaf_def)

lemma deaf_start: "deaf (snd (start E s)) = deaf s"
  by (simp add: start_def deaf_def split: prod.splits option.splits)

lemma deaf_loop_head: "deaf (snd (loop_head s)) = deaf s"
  by (simp add: loop_head_def Let_def deaf_caught deaf_detector split: prod.splits option.splits)

lemma deaf_after_mel: "deaf (snd (after_mel r s)) = deaf s"
  by (cases r) (simp_all add: after_mel_def deaf_caught deaf_loop_head deaf_detector)

lemma deaf_after_emb: "deaf (snd (after_emb r s)) = deaf s"
  by (cases r)
     (simp_all add: after_emb_def Let_def deaf_caught deaf_loop_head deaf_detector
        split: prod.splits option.splits)

lemma deaf_after_wake: "\<not> SR E \<Longrightarrow> deaf (snd (after_wake E r s)) = deaf s"
proof (cases r)
  case (Inl e)
  then show ?thesis by (simp add: after_wake_def deaf_caught)
next
  case (Inr tensorData)
  assume sr: "\<not> SR E"
  show ?thesis
    unfolding after_wake_def Inr sum.case Let_def deaf_loop_head
    using sr by (simp add: deaf_detector deaf_wake deaf_log split: list.splits)
qed

lemma deaf_resume_frame: "\<not> SR E \<Longrightarrow> deaf (snd (resume_frame E p r s)) = deaf s"
  by (cases p) (simp_all add: resume_frame_def deaf_after_mel deaf_after_emb deaf_after_wake)

lemma deaf_run_frame: "\<not> SR E \<Longrightarrow> deaf (run_frame E ps) = deaf (snd ps)"
proof (induction E ps rule: run_frame.induct)
  case (1 E s)
  show ?case by simp
next
  case (2 E p s)
  then show ?case by (simp add: deaf_resume_frame)
qed

lemma deaf_apply_op: "\<not> SR E \<Longrightarrow> deaf s \<Longrightarrow> deaf (apply_op E s x)"
proof (cases x)
  case (Message samples)
  assume "\<not> SR E" "deaf s"
  then show ?thesis
    by (simp add: apply_op_def Message deaf_run_frame onmessage_def)
next
  case (Result raw)
  assume "\<not> SR E" "deaf s"
  then show ?thesis
    by (simp add: apply_op_def Result deaf_def)
next
  case (Register phrase el)
  assume "\<not> SR E" "deaf s"
  then show ?thesis
    by (simp add: apply_op_def Register deaf_def register_def Let_def)
qed (simp_all add: apply_op_def deaf_start deaf_stop deaf_wake deaf_sleep timer_fires_def
       resetSleepTimer_def deaf_def [of "s\<lparr>sleepTimer := t\<rparr>" for t] deaf_def [of s]
       split: option.splits)

lemma deaf_run: "\<not> SR E \<Longrightarrow> deaf s \<Longrightarrow> deaf (run E ops s)"
  unfolding run_def by (induction ops arbitrary: s) (simp_all add: deaf_apply_op)

lemma recognition_discoverCommands:
  "recognition (discoverCommands nodes r) = recognition r"
proof -
  have reg: "\<And>el r a. recognition (discover_action el r a) = recognition r"
    by (simp add: discover_action_def register_def Let_def split: option.splits)
  have inner: "\<And>el as r. recognition (foldl (discover_action el) r as) = recognition r"
  proof -
    fix el as r show "recognition (foldl (discover_action el) r as) = recognition r"
      by (induction as arbitrary: r) (simp_all add: reg)
  qed
  show ?thesis
    unfolding discoverCommands_def
    by (induction nodes arbitrary: r) (simp_all add: inner split: prod.splits)
qed

lemma deaf_new: "deaf (new_SpeakThen nodes opts)"
  by (simp add: deaf_def new_SpeakThen_def Let_def recognition_discoverCommands
      new_CommandRecognizer_def)

text \<open>
  C9. Without \<^verbatim>\<open>SpeechRecognition\<close> in the browser, \<^verbatim>\<open>CommandRecognizer.start\<close> only
  reports: it logs the message, calls \<^verbatim>\<open>onError\<close> (when one was configured) with
  \<^verbatim>\<open>Speech recognition not supported in this browser\<close> and returns, leaving every field
  as it was. \<^verbatim>\<open>wake()\<close> still ends in Awake with the same registered commands, a
  waking instance reports that error, and whatever sequence of events follows the
  construction, no command event is ever dispatched.
\<close>

theorem speech_recognition_unavailable:
  assumes "\<not> SR E"
  shows "recognizer_start E s
           = s\<lparr>trace := trace s
                 @ ConsoleError ''Speech recognition not supported in this browser''
                 # (if r_onError (commandRecognizer s)
                    then [OnError (Error ''Speech recognition not supported in this browser'')]
                    else [])\<rparr>
       \<and> state (wake E s) = Awake
       \<and> commands (commandRecognizer (wake E s)) = commands (commandRecognizer s)
       \<and> (state s = Sleeping \<and> r_onError (commandRecognizer s) \<longrightarrow>
            new_events s (wake E s)
              = (if onWake (config s) then [OnWake] else [])
                @ [ConsoleError ''Speech recognition not supported in this browser'',
                   OnError (Error ''Speech recognition not supported in this browser'')])
       \<and> filter is_dispatch (trace (run E ops (new_SpeakThen nodes opts))) = []"
proof -
  have a: "recognizer_start E s
           = s\<lparr>trace := trace s
                 @ ConsoleError ''Speech recognition not supported in this browser''
                 # (if r_onError (commandRecognizer s)
                    then [OnError (Error ''Speech recognition not supported in this browser'')]
                    else [])\<rparr>"
    using assms by (simp add: recognizer_start_def Let_def log_def)
  have d: "state s = Sleeping \<Longrightarrow> r_onError (commandRecognizer s) \<Longrightarrow>
            new_events s (wake E s)
              = (if onWake (config s) then [OnWake] else [])
                @ [ConsoleError ''Speech recognition not supported in this browser'',
                   OnError (Error ''Speech recognition not supported in this browser'')]"
    using assms by (simp add: new_events_def trace_wake)
  have e: "filter is_dispatch (trace (run E ops (new_SpeakThen nodes opts))) = []"
    using deaf_run [OF assms deaf_new, of ops nodes opts] by (simp add: deaf_def)
  show ?thesis
    using a d e by (simp add: state_wake commands_wake)
qed

theorem speech_recognition_unavailable_witness:
  "\<not> SR deaf_env
   \<and> state started_instance = Sleeping
   \<and> r_onError (commandRecognizer started_instance)
   \<and> state (wake deaf_env started_instance) = Awake
   \<and> new_events started_instance (wake deaf_env started_instance)
        = [OnWake, ConsoleError ''Speech recognition not supported in this browser'',
           OnError (Error ''Speech recognition not supported in this browser'')]
   \<and> filter is_dispatch
        (trace (run deaf_env [Register ''play'' 1, Start, Wake, Result ''play'']
                  (new_SpeakThen [] no_options))) = []"
proof -
  have sr: "\<not> SR deaf_env"
    by (simp add: deaf_env_def)
  show ?thesis
    using sr started_instance_fields
      speech_recognition_unavailable [OF sr, of started_instance
        "[Register ''play'' 1, Start, Wake, Result ''play'']" "[]" no_options]
    by simp
qed


section \<open>The windowing pipeline\<close>

subsection \<open>Filling the input buffers\<close>

text \<open>Rows of the right width written into a buffer of the right length give the
  concatenation of the rows; a spectrogram output of \<open>32 * n\<close> equal values gives \<open>n\<close>
  full frames.\<close>

lemma f32_set_fits:
  "off + length src \<le> length buf \<Longrightarrow>
   f32_set buf src off = Inr (take off buf @ src @ drop (off + length src) buf)"
  by (simp add: f32_set_def)

lemma set_rows_fits:
  "\<forall>src\<in>set srcs. length src = w \<Longrightarrow> (i + length srcs) * w \<le> length buf \<Longrightarrow>
   set_rows buf w i srcs
     = (None, take (i * w) buf @ concat srcs @ drop ((i + length srcs) * w) buf)"
proof (induction srcs arbitrary: buf i)
  case Nil
  show ?case by simp
next
  case (Cons src srcs)
  let ?buf' = "take (i * w) buf @ src @ drop (i * w + w) buf"
  from Cons.prems have w: "length src = w" and ws: "\<forall>x\<in>set srcs. length x = w"
    and fit: "(Suc i + length srcs) * w \<le> length buf"
    by simp_all
  from fit have fit1: "i * w + w \<le> length buf"
    by (simp add: algebra_simps)
  have step: "f32_set buf src (i * w) = Inr ?buf'"
    using fit1 by (simp add: f32_set_fits w)
  have len: "length ?buf' = length buf"
    using fit1 by (simp add: w)
  have tk: "take (Suc i * w) ?buf' = take (i * w) buf @ src"
    using fit1 by (simp add: w)
  have dr: "drop ((Suc i + length srcs) * w) ?buf' = drop ((Suc i + length srcs) * w) buf"
    using fit1 by (simp add: w algebra_simps)
  have "set_rows ?buf' w (Suc i) srcs
      = (None, take (Suc i * w) ?buf' @ concat srcs @ drop ((Suc i + length srcs) * w) ?buf')"
    by (rule Cons.IH [OF ws]) (simp only: len fit)
  then show ?case
    by (simp only: set_rows.simps step sum.case tk dr) simp
qed

lemma set_rows_window:
  assumes "\<forall>src\<in>set srcs. length src = w" and "length buf = length srcs * w"
  shows "set_rows buf w 0 srcs = (None, concat srcs)"
  using set_rows_fits [OF assms(1), of 0 buf] assms(2) by simp

lemma mel_frames_replicate:
  "mel_frames (replicate (32 * n) x) = replicate n (replicate 32 (x / 10 + 2))"
proof -
  have cnt: "(32 * n + 31) div 32 = n" by simp
  have "\<And>i. i < n \<Longrightarrow> slice (replicate (32 * n) x) (i * 32) ((i + 1) * 32) = replicate 32 x"
  proof -
    fix i assume "i < n"
    then have "32 \<le> 32 * n - i * 32" by simp
    then show "slice (replicate (32 * n) x) (i * 32) ((i + 1) * 32) = replicate 32 x"
      by (simp add: slice_def min_def)
  qed
  then have "map (\<lambda>i. map (\<lambda>x. x / 10 + 2) (slice (replicate (32 * n) x) (i * 32) ((i + 1) * 32))) [0..<n]
      = map (\<lambda>i. replicate 32 (x / 10 + 2)) [0..<n]"
    by (intro map_cong) simp_all
  then show ?thesis
    by (simp add: mel_frames_def cnt map_replicate_const)
qed

lemma length_mel_frames: "length (mel_frames xs) = (length xs + 31) div 32"
  by (simp add: mel_frames_def)

text \<open>A spectrogram output whose length is a multiple of 32 is cut into full frames only.\<close>

lemma mel_frames_width:
  assumes "length melData mod 32 = 0"
  shows "\<forall>f\<in>set (mel_frames melData). length f = 32"
proof -
  from assms obtain q where q: "length melData = 32 * q"
    by (auto simp add: mod_eq_0_iff_dvd)
  have "\<And>i. i < q \<Longrightarrow> length (slice melData (i * 32) ((i + 1) * 32)) = 32"
    by (simp add: slice_def q)
  then show ?thesis
    by (auto simp add: mel_frames_def q)
qed


subsection \<open>One pass of the loop\<close>





lemma detector_wake:
  "wakeDetector (wake E s) = (if state s = Awake then wakeDetector s else pause (wakeDetector s))"
  by (simp add: wake_def Let_def resetSleepTimer_def recognizer_start_def log_def)

lemma loop_head_window:
  assumes "MELSPEC_WINDOW \<le> length (melFrames (wakeDetector s))"
    and "\<forall>f\<in>set (take MELSPEC_WINDOW (melFrames (wakeDetector s))). length f = 32"
    and "length (melInputBuffer (wakeDetector s)) = MELSPEC_WINDOW * 32"
  shows "loop_head s
     = (Some (AwaitEmb (concat (take MELSPEC_WINDOW (melFrames (wakeDetector s))))),
        s\<lparr>wakeDetector := (wakeDetector s)
             \<lparr>melInputBuffer := concat (take MELSPEC_WINDOW (melFrames (wakeDetector s)))\<rparr>\<rparr>)"
proof -
  have rows: "length (take MELSPEC_WINDOW (melFrames (wakeDetector s))) = MELSPEC_WINDOW"
    using assms(1) by simp
  have fill: "set_rows (melInputBuffer (wakeDetector s)) 32 0
                (take MELSPEC_WINDOW (melFrames (wakeDetector s)))
              = (None, concat (take MELSPEC_WINDOW (melFrames (wakeDetector s))))"
    by (rule set_rows_window [OF assms(2)]) (simp only: rows assms(3))
  show ?thesis
    using assms(1) by (simp add: loop_head_def Let_def fill)
qed

lemma loop_head_short:
  "length (melFrames (wakeDetector s)) < MELSPEC_WINDOW \<Longrightarrow> loop_head s = (None, s)"
  by (simp add: loop_head_def Let_def)

lemma after_emb_window:
  assumes Q: "queue = embeddingBuffer (wakeDetector s) @ [e]"
    and "\<forall>v\<in>set (drop (length queue - 16) queue). length v = 96"
    and "length (embInputBuffer (wakeDetector s)) = 16 * 96"
    and D: "d = (wakeDetector s)\<lparr>embeddingBuffer := queue,
                                  melFrames := drop 8 (melFrames (wakeDetector s))\<rparr>"
  shows "after_emb (Inr e) s
     = (if 16 \<le> length queue
        then (Some (AwaitWake (concat (drop (length queue - 16) queue))),
              s\<lparr>wakeDetector := d\<lparr>embInputBuffer := concat (drop (length queue - 16) queue)\<rparr>\<rparr>)
        else loop_head (s\<lparr>wakeDetector := d\<rparr>))"
proof -
  have d1: "(wakeDetector s)\<lparr>embeddingBuffer := embeddingBuffer (wakeDetector s) @ [e],
                melFrames := drop 8 (melFrames (wakeDetector s))\<rparr> = d"
    by (simp add: D Q)
  have q: "embeddingBuffer d = queue" and b: "embInputBuffer d = embInputBuffer (wakeDetector s)"
    by (simp_all add: D)
  have fill: "16 \<le> length queue \<Longrightarrow>
      set_rows (embInputBuffer d) 96 0 (drop (length queue - 16) queue)
        = (None, concat (drop (length queue - 16) queue))"
    unfolding b by (rule set_rows_window [OF assms(2)]) (simp add: assms(3))
  show ?thesis
    unfolding after_emb_def sum.case Let_def d1 q
    using fill by simp
qed



subsection \<open>Windows of calls that overlap\<close>

text \<open>
  A second call whose spectrogram output arrives while the first call waits for the
  embedding session finds the frames of the first window still queued and builds the same
  window again: the windows of two calls that overlap are not 8 frames apart.
\<close>

lemma length_concat_rows:
  "\<forall>x\<in>set xs. length x = w \<Longrightarrow> length (concat xs) = length xs * w"
  by (induction xs) simp_all

lemma overlapping_call_same_window:
  assumes guard: "MELSPEC_WINDOW \<le> length (melFrames (wakeDetector s))"
    and mel_w: "\<forall>f\<in>set (take MELSPEC_WINDOW (melFrames (wakeDetector s))). length f = 32"
    and mel_b: "length (melInputBuffer (wakeDetector s)) = MELSPEC_WINDOW * 32"
    and W: "window = concat (take MELSPEC_WINDOW (melFrames (wakeDetector s)))"
  shows "loop_head s = (Some (AwaitEmb window), snd (loop_head s))
     \<and> fst (after_mel (Inr m) (snd (loop_head s))) = Some (AwaitEmb window)
     \<and> melFrames (wakeDetector (snd (after_mel (Inr m) (snd (loop_head s)))))
          = melFrames (wakeDetector s) @ mel_frames m"
proof -
  let ?s1 = "s\<lparr>wakeDetector := (wakeDetector s)\<lparr>melInputBuffer := window\<rparr>\<rparr>"
  let ?s2 = "?s1\<lparr>wakeDetector := (wakeDetector ?s1)
               \<lparr>melFrames := melFrames (wakeDetector ?s1) @ mel_frames m\<rparr>\<rparr>"
  have head: "loop_head s = (Some (AwaitEmb window), ?s1)"
    unfolding W by (rule loop_head_window [OF guard mel_w mel_b])
  have len: "length window = MELSPEC_WINDOW * 32"
    unfolding W using length_concat_rows [OF mel_w] guard by simp
  have tk: "take MELSPEC_WINDOW (melFrames (wakeDetector ?s2))
      = take MELSPEC_WINDOW (melFrames (wakeDetector s))"
    using guard by simp
  have "loop_head ?s2
     = (Some (AwaitEmb (concat (take MELSPEC_WINDOW (melFrames (wakeDetector ?s2))))),
        ?s2\<lparr>wakeDetector := (wakeDetector ?s2)
             \<lparr>melInputBuffer := concat (take MELSPEC_WINDOW (melFrames (wakeDetector ?s2)))\<rparr>\<rparr>)"
  proof (rule loop_head_window)
    show "MELSPEC_WINDOW \<le> length (melFrames (wakeDetector ?s2))"
      using guard by simp
    show "\<forall>f\<in>set (take MELSPEC_WINDOW (melFrames (wakeDetector ?s2))). length f = 32"
      unfolding tk by (rule mel_w)
    show "length (melInputBuffer (wakeDetector ?s2)) = MELSPEC_WINDOW * 32"
      using len by simp
  qed
  then have again: "fst (loop_head ?s2) = Some (AwaitEmb window)"
    "melFrames (wakeDetector (snd (loop_head ?s2))) = melFrames (wakeDetector s) @ mel_frames m"
    unfolding tk W [symmetric] by simp_all
  show ?thesis
    unfolding head using again by (simp add: after_mel_def)
qed

section \<open>Bounds on the two queues\<close>

subsection \<open>Errors caught during a call\<close>

lemma errors_log:
  "errors_caught (log e s) = errors_caught s + (if is_wake_word_error e then 1 else 0)"
  by (simp add: errors_caught_def log_def)

lemma errors_detector: "errors_caught (s\<lparr>wakeDetector := d\<rparr>) = errors_caught s"
  by (simp add: errors_caught_def)

lemma errors_caught_caught: "errors_caught (caught e s) = Suc (errors_caught s)"
  by (simp add: caught_def Let_def errors_log)

lemma errors_wake: "errors_caught (wake E s) = errors_caught s"
  by (simp add: wake_def Let_def resetSleepTimer_def recognizer_start_def log_def errors_caught_def)

text \<open>The outcomes of the head of the loop.\<close>

lemma loop_head_cases:
  obtains (short) "length (melFrames (wakeDetector s)) < MELSPEC_WINDOW" "loop_head s = (None, s)"
  | (window) w buf where "MELSPEC_WINDOW \<le> length (melFrames (wakeDetector s))"
      "loop_head s = (Some (AwaitEmb w), s\<lparr>wakeDetector := (wakeDetector s)\<lparr>melInputBuffer := buf\<rparr>\<rparr>)"
  | (thrown) e buf where "MELSPEC_WINDOW \<le> length (melFrames (wakeDetector s))"
      "loop_head s = (None, caught e (s\<lparr>wakeDetector := (wakeDetector s)\<lparr>melInputBuffer := buf\<rparr>\<rparr>))"
proof (cases "MELSPEC_WINDOW \<le> length (melFrames (wakeDetector s))")
  case False
  then show ?thesis using short by (simp add: loop_head_def Let_def)
next
  case True
  obtain r buf where sr: "set_rows (melInputBuffer (wakeDetector s)) 32 0
      (take MELSPEC_WINDOW (melFrames (wakeDetector s))) = (r, buf)"
    by (cases "set_rows (melInputBuffer (wakeDetector s)) 32 0
      (take MELSPEC_WINDOW (melFrames (wakeDetector s)))")
  show ?thesis
  proof (cases r)
    case None
    then show ?thesis using window [of buf buf] True sr by (simp add: loop_head_def Let_def)
  next
    case (Some e)
    then show ?thesis using thrown [of e buf] True sr by (simp add: loop_head_def Let_def)
  qed
qed

lemma loop_head_errors: "errors_caught s \<le> errors_caught (snd (loop_head s))"
  by (cases s rule: loop_head_cases) (simp_all add: errors_caught_caught errors_detector)

lemma loop_head_drained:
  "loop_head s = (None, s') \<Longrightarrow> errors_caught s' = errors_caught s \<Longrightarrow>
   length (melFrames (wakeDetector s')) < MELSPEC_WINDOW"
  by (cases s rule: loop_head_cases) (auto simp add: errors_caught_caught errors_detector)

lemma loop_head_embeddingBuffer:
  "embeddingBuffer (wakeDetector (snd (loop_head s))) = embeddingBuffer (wakeDetector s)"
  by (cases s rule: loop_head_cases) (simp_all add: caught_def Let_def log_def)

lemma loop_head_suspended:
  "loop_head s = (Some p, s') \<Longrightarrow>
   (\<exists>w. p = AwaitEmb w) \<and> MELSPEC_WINDOW \<le> length (melFrames (wakeDetector s'))"
  by (cases s rule: loop_head_cases) auto


lemma after_mel_errors: "errors_caught s \<le> errors_caught (snd (after_mel r s))"
proof (cases r)
  case (Inl e)
  then show ?thesis by (simp add: after_mel_def errors_caught_caught)
next
  case (Inr melData)
  show ?thesis
    unfolding after_mel_def Inr sum.case
    by (rule order_trans [OF _ loop_head_errors]) (simp add: errors_detector)
qed

lemma after_mel_drained:
  assumes "after_mel r s = (None, s')" "errors_caught s' = errors_caught s"
  shows "length (melFrames (wakeDetector s')) < MELSPEC_WINDOW"
proof (cases r)
  case (Inl e)
  with assms show ?thesis by (auto simp add: after_mel_def errors_caught_caught)
next
  case (Inr melData)
  with assms show ?thesis
    by (auto simp add: after_mel_def errors_detector dest!: loop_head_drained)
qed

lemma after_mel_queue:
  "embeddingBuffer (wakeDetector (snd (after_mel r s))) = embeddingBuffer (wakeDetector s)
   \<or> errors_caught (snd (after_mel r s)) \<noteq> errors_caught s"
  by (cases r) (simp_all add: after_mel_def errors_caught_caught loop_head_embeddingBuffer)

lemma after_mel_suspended:
  "after_mel r s = (Some p, s') \<Longrightarrow> \<exists>w. p = AwaitEmb w"
  by (cases r) (auto simp add: after_mel_def dest: loop_head_suspended)

lemma after_emb_cases:
  obtains (few) "length (embeddingBuffer (wakeDetector s)) < 15"
      "after_emb (Inr e) s = loop_head (s\<lparr>wakeDetector := pushed e (wakeDetector s)\<rparr>)"
  | (classify) w buf where "15 \<le> length (embeddingBuffer (wakeDetector s))"
      "after_emb (Inr e) s
         = (Some (AwaitWake w), s\<lparr>wakeDetector := (pushed e (wakeDetector s))\<lparr>embInputBuffer := buf\<rparr>\<rparr>)"
  | (thrown) err buf where
      "after_emb (Inr e) s
         = (None, caught err (s\<lparr>wakeDetector := (pushed e (wakeDetector s))\<lparr>embInputBuffer := buf\<rparr>\<rparr>))"
proof (cases "15 \<le> length (embeddingBuffer (wakeDetector s))")
  case False
  then show ?thesis using few by (simp add: after_emb_def Let_def pushed_def)
next
  case True
  let ?d = "pushed e (wakeDetector s)"
  obtain r buf where sr: "set_rows (embInputBuffer ?d) 96 0
      (drop (length (embeddingBuffer ?d) - 16) (embeddingBuffer ?d)) = (r, buf)"
    by (cases "set_rows (embInputBuffer ?d) 96 0
      (drop (length (embeddingBuffer ?d) - 16) (embeddingBuffer ?d))")
  have ge: "16 \<le> length (embeddingBuffer ?d)"
    using True by (simp add: pushed_def)
  have eq: "after_emb (Inr e) s =
     (case (r, buf) of
        (Some e, buf) \<Rightarrow> (None, caught e (s\<lparr>wakeDetector := ?d\<lparr>embInputBuffer := buf\<rparr>\<rparr>))
      | (None, buf) \<Rightarrow> (Some (AwaitWake buf), s\<lparr>wakeDetector := ?d\<lparr>embInputBuffer := buf\<rparr>\<rparr>))"
    unfolding after_emb_def sum.case Let_def pushed_def [symmetric] sr [symmetric]
    using ge by simp
  show ?thesis
  proof (cases r)
    case None
    then show ?thesis using classify [of buf buf] True eq by simp
  next
    case (Some err)
    then show ?thesis using thrown [of err buf] eq by simp
  qed
qed

lemma after_emb_errors: "errors_caught s \<le> errors_caught (snd (after_emb r s))"
proof (cases r)
  case (Inl e)
  then show ?thesis by (simp add: after_emb_def errors_caught_caught)
next
  case (Inr e)
  show ?thesis
    unfolding Inr
  proof (cases rule: after_emb_cases [of s e])
    case few
    show "errors_caught s \<le> errors_caught (snd (after_emb (Inr e) s))"
      unfolding few(2) by (rule order_trans [OF _ loop_head_errors]) (simp add: errors_detector)
  qed (simp_all add: errors_caught_caught errors_detector)
qed

lemma after_emb_drained:
  assumes "after_emb r s = (None, s')" "errors_caught s' = errors_caught s"
  shows "length (melFrames (wakeDetector s')) < MELSPEC_WINDOW"
proof (cases r)
  case (Inl e)
  with assms show ?thesis by (auto simp add: after_emb_def errors_caught_caught)
next
  case (Inr e)
  note a = assms [unfolded Inr]
  show ?thesis
  proof (cases rule: after_emb_cases [of s e])
    case few
    from a show ?thesis
      unfolding few(2) by (auto simp add: errors_detector dest!: loop_head_drained)
  qed (use a in \<open>auto simp add: errors_caught_caught errors_detector\<close>)
qed

lemma after_emb_queue:
  assumes "after_emb r s = (q, s')" "errors_caught s' = errors_caught s"
    and "length (embeddingBuffer (wakeDetector s)) \<le> 32"
  shows "length (embeddingBuffer (wakeDetector s')) \<le> queue_bound q"
proof (cases r)
  case (Inl e)
  with assms show ?thesis by (auto simp add: after_emb_def errors_caught_caught)
next
  case (Inr e)
  note a = assms [unfolded Inr]
  show ?thesis
  proof (cases rule: after_emb_cases [of s e])
    case few
    have "embeddingBuffer (wakeDetector s') = embeddingBuffer (wakeDetector s) @ [e]"
      using a(1) loop_head_embeddingBuffer [of "s\<lparr>wakeDetector := pushed e (wakeDetector s)\<rparr>"]
      unfolding few(2) by (simp add: pushed_def)
    with few(1) show ?thesis
      by (simp add: queue_bound_def split: option.splits pending.splits)
  next
    case (classify w buf)
    with a show ?thesis
      by (auto simp add: queue_bound_def pushed_def)
  next
    case (thrown err buf)
    with a show ?thesis
      by (auto simp add: errors_caught_caught errors_detector)
  qed
qed


lemma after_wake_Inr: "after_wake E (Inr out) s = loop_head (trimmed (detected E out s))"
  by (simp add: after_wake_def detected_def trimmed_def Let_def)

lemma detected_fields:
  "embeddingBuffer (wakeDetector (detected E out s)) = embeddingBuffer (wakeDetector s)"
  "melFrames (wakeDetector (detected E out s)) = melFrames (wakeDetector s)"
  "errors_caught (detected E out s) = errors_caught s"
  by (simp_all add: detected_def detector_wake pause_def log_def errors_wake errors_log [unfolded log_def]
      split: list.splits)

lemma trimmed_fields:
  "embeddingBuffer (wakeDetector (trimmed s))
     = (if 32 < length (embeddingBuffer (wakeDetector s))
        then drop (length (embeddingBuffer (wakeDetector s)) - 16) (embeddingBuffer (wakeDetector s))
        else embeddingBuffer (wakeDetector s))"
  "melFrames (wakeDetector (trimmed s)) = melFrames (wakeDetector s)"
  "errors_caught (trimmed s) = errors_caught s"
  by (simp_all add: trimmed_def errors_detector)

lemma after_wake_errors: "errors_caught s \<le> errors_caught (snd (after_wake E r s))"
proof (cases r)
  case (Inl e)
  then show ?thesis by (simp add: after_wake_def errors_caught_caught)
next
  case (Inr out)
  show ?thesis
    unfolding Inr after_wake_Inr
    by (rule order_trans [OF _ loop_head_errors]) (simp add: trimmed_fields detected_fields)
qed

lemma after_wake_drained:
  assumes "after_wake E r s = (None, s')" "errors_caught s' = errors_caught s"
  shows "length (melFrames (wakeDetector s')) < MELSPEC_WINDOW"
proof (cases r)
  case (Inl e)
  with assms show ?thesis by (auto simp add: after_wake_def errors_caught_caught)
next
  case (Inr out)
  with assms show ?thesis
    by (auto simp add: after_wake_Inr trimmed_fields detected_fields dest!: loop_head_drained)
qed

lemma after_wake_trims:
  "embeddingBuffer (wakeDetector (snd (after_wake E (Inr out) s)))
     = (if 32 < length (embeddingBuffer (wakeDetector s))
        then drop (length (embeddingBuffer (wakeDetector s)) - 16) (embeddingBuffer (wakeDetector s))
        else embeddingBuffer (wakeDetector s))"
  by (simp add: after_wake_Inr loop_head_embeddingBuffer trimmed_fields detected_fields)

lemma after_wake_suspended:
  "after_wake E r s = (Some p, s') \<Longrightarrow> \<exists>w. p = AwaitEmb w"
  by (cases r) (auto simp add: after_wake_def Let_def dest: loop_head_suspended)

lemma after_wake_queue:
  assumes "after_wake E r s = (q, s')" "errors_caught s' = errors_caught s"
  shows "length (embeddingBuffer (wakeDetector s')) \<le> queue_bound q"
proof (cases r)
  case (Inl e)
  with assms show ?thesis by (auto simp add: after_wake_def errors_caught_caught)
next
  case (Inr out)
  have "length (embeddingBuffer (wakeDetector s')) \<le> 32"
    using after_wake_trims [of E out s] assms(1) by (simp add: Inr split: if_splits)
  moreover have "queue_bound q = 32"
    using after_wake_suspended [of E r s] assms(1)
    by (cases q) (auto simp add: queue_bound_def)
  ultimately show ?thesis by simp
qed

lemma after_mel_queue_bound:
  assumes "after_mel r s = (q, s')" "errors_caught s' = errors_caught s"
    and "length (embeddingBuffer (wakeDetector s)) \<le> 32"
  shows "length (embeddingBuffer (wakeDetector s')) \<le> queue_bound q"
proof -
  have "queue_bound q = 32"
    using after_mel_suspended [of r s] assms(1)
    by (cases q) (auto simp add: queue_bound_def)
  then show ?thesis
    using after_mel_queue [of r s] assms by auto
qed

subsection \<open>Whole calls\<close>

lemma resume_frame_errors: "errors_caught s \<le> errors_caught (snd (resume_frame E p r s))"
  by (cases p) (simp_all add: resume_frame_def after_mel_errors after_emb_errors after_wake_errors)

lemma resume_frame_drained:
  "resume_frame E p r s = (None, s') \<Longrightarrow> errors_caught s' = errors_caught s \<Longrightarrow>
   length (melFrames (wakeDetector s')) < MELSPEC_WINDOW"
  by (cases p)
     (auto simp add: resume_frame_def
        dest: after_mel_drained after_emb_drained after_wake_drained)

lemma resume_frame_queue:
  "resume_frame E p r s = (q, s') \<Longrightarrow> errors_caught s' = errors_caught s \<Longrightarrow>
   length (embeddingBuffer (wakeDetector s)) \<le> queue_bound (Some p) \<Longrightarrow>
   length (embeddingBuffer (wakeDetector s')) \<le> queue_bound q"
  by (cases p)
     (auto simp add: resume_frame_def queue_bound_def [of "Some _"]
        dest: after_mel_queue_bound after_emb_queue after_wake_queue)

lemma run_frame_errors: "errors_caught (snd ps) \<le> errors_caught (run_frame E ps)"
proof (induction E ps rule: run_frame.induct)
  case (1 E s)
  show ?case by simp
next
  case (2 E p s)
  show ?case
    using order_trans [OF resume_frame_errors [of s E p "settle E p"] 2] by simp
qed

lemma run_frame_clean:
  "errors_caught (run_frame E (Some p, s)) = errors_caught s \<Longrightarrow>
   length (melFrames (wakeDetector (run_frame E (Some p, s)))) < MELSPEC_WINDOW
   \<and> (length (embeddingBuffer (wakeDetector s)) \<le> queue_bound (Some p) \<longrightarrow>
        length (embeddingBuffer (wakeDetector (run_frame E (Some p, s)))) \<le> 32)"
proof (induction E "(Some p, s)" arbitrary: p s rule: run_frame.induct)
  case (2 E p s)
  obtain q s' where step: "resume_frame E p (settle E p) s = (q, s')"
    by (cases "resume_frame E p (settle E p) s")
  have run: "run_frame E (Some p, s) = run_frame E (q, s')"
    by (simp add: step)
  have le1: "errors_caught s \<le> errors_caught s'"
    using resume_frame_errors [of s E p "settle E p"] by (simp add: step)
  have le2: "errors_caught s' \<le> errors_caught (run_frame E (q, s'))"
    using run_frame_errors [of "(q, s')" E] by simp
  from 2(2) le1 le2 have eq: "errors_caught s' = errors_caught s"
    and eq': "errors_caught (run_frame E (q, s')) = errors_caught s'"
    unfolding run by simp_all
  show ?case
  proof (cases q)
    case None
    then show ?thesis
      unfolding run
      using resume_frame_drained [of E p "settle E p" s s'] step eq
        resume_frame_queue [OF step eq]
      by (simp add: queue_bound_def)
  next
    case (Some p')
    have ih: "length (melFrames (wakeDetector (run_frame E (Some p', s')))) < MELSPEC_WINDOW
       \<and> (length (embeddingBuffer (wakeDetector s')) \<le> queue_bound (Some p') \<longrightarrow>
            length (embeddingBuffer (wakeDetector (run_frame E (Some p', s')))) \<le> 32)"
      using 2(1) [of p' s'] step Some eq' by simp
    then show ?thesis
      unfolding run Some
      using resume_frame_queue [OF step eq] Some by blast
  qed
qed


lemma resume_frame_suspended_emb:
  assumes "resume_frame E p r s = (Some (AwaitEmb w), s')"
  shows "MELSPEC_WINDOW \<le> length (melFrames (wakeDetector s'))"
proof (cases p)
  case (AwaitMel x)
  with assms show ?thesis
    by (cases r) (auto simp add: resume_frame_def after_mel_def dest: loop_head_suspended)
next
  case (AwaitEmb x)
  show ?thesis
  proof (cases r)
    case (Inl e)
    with assms AwaitEmb show ?thesis by (simp add: resume_frame_def after_emb_def)
  next
    case (Inr e)
    from assms have a: "after_emb (Inr e) s = (Some (AwaitEmb w), s')"
      by (simp add: resume_frame_def AwaitEmb Inr)
    show ?thesis
      by (cases rule: after_emb_cases [of s e])
         (use a in \<open>auto dest: loop_head_suspended loop_head_suspended [OF sym]\<close>)
  qed
next
  case (AwaitWake x)
  with assms show ?thesis
    by (cases r) (auto simp add: resume_frame_def after_wake_def Let_def dest: loop_head_suspended)
qed

text \<open>
  C2 (as amended). A call of \<^verbatim>\<open>processFrame\<close> during which no error is caught returns
  with fewer than 76 frames queued; with fewer than 76 frames queued the head of the loop
  returns at once and touches nothing; and whenever a call is suspended on the embedding
  session, that is whenever a window has been built, at least 76 frames are queued. A
  call that catches an error returns where it stands, see the counterexample below.
\<close>

theorem mel_queue_drained:
  "(errors_caught (processFrame E x s) = errors_caught s \<longrightarrow>
      length (melFrames (wakeDetector (processFrame E x s))) < MELSPEC_WINDOW)
   \<and> (length (melFrames (wakeDetector s)) < MELSPEC_WINDOW \<longrightarrow> loop_head s = (None, s))
   \<and> (resume_frame E p r s = (Some (AwaitEmb w), s') \<longrightarrow>
        MELSPEC_WINDOW \<le> length (melFrames (wakeDetector s')))"
  unfolding processFrame_def
  using run_frame_clean [of E "AwaitMel x" s] loop_head_short [of s]
    resume_frame_suspended_emb [of E p r s w s']
  by blast

subsection \<open>Calls that overlap\<close>

text \<open>
  No event and no stretch of a call adds more than one embedding to the queue, and the
  stretch that adds one either leaves its call waiting for the classifier or fails late;
  the stretch that follows a classifier answer leaves at most 32 embeddings. Hence the
  queue never holds more than 32 embeddings, plus one for every call that waits for the
  classifier, plus one for every late failure so far.
\<close>

lemma eb_caught: "embeddingBuffer (wakeDetector (caught e s)) = embeddingBuffer (wakeDetector s)"
  by (simp add: caught_def Let_def log_def)

lemma after_mel_eb: "embeddingBuffer (wakeDetector (snd (after_mel r s))) = embeddingBuffer (wakeDetector s)"
  by (cases r) (simp_all add: after_mel_def eb_caught loop_head_embeddingBuffer)

lemma eb_recognizer_start: "wakeDetector (recognizer_start E s) = wakeDetector s"
  by (simp add: recognizer_start_def Let_def log_def)

lemma eb_recognizer_stop: "wakeDetector (recognizer_stop s) = wakeDetector s"
  by (simp add: recognizer_stop_def Let_def log_def)

lemma eb_sleep: "qlen (sleep s) \<le> qlen s"
  by (simp add: sleep_def Let_def log_def eb_recognizer_stop resume_def)

lemma eb_start: "qlen (snd (start E s)) \<le> qlen s"
  by (simp add: start_def initialize_def detector_start_def Let_def split: option.splits prod.splits)

lemma apply_op_eb:
  "\<forall>x. a \<noteq> Message x \<Longrightarrow> qlen (apply_op E s a) \<le> qlen s"
  by (cases a)
     (simp_all add: apply_op_def eb_start eb_sleep stop_def Let_def eb_recognizer_stop detector_stop_def
        detector_wake pause_def resetSleepTimer_def timer_fires_def onresult_def log_def
        order_trans [OF eb_sleep] split: option.splits)

lemma awaiting_update:
  "i < length calls \<Longrightarrow>
   awaiting (calls[i := q]) + (if awaits_classifier (calls ! i) then 1 else 0)
     = awaiting calls + (if awaits_classifier q then 1 else 0)"
proof (induction calls arbitrary: i)
  case Nil
  then show ?case by simp
next
  case (Cons c calls)
  then show ?case
    by (cases i) (auto simp add: awaiting_def)
qed

lemma awaiting_remove:
  "i < length calls \<Longrightarrow>
   awaiting (take i calls @ drop (Suc i) calls) + (if awaits_classifier (calls ! i) then 1 else 0)
     = awaiting calls"
proof (induction calls arbitrary: i)
  case Nil
  then show ?case by simp
next
  case (Cons c calls)
  then show ?case
    by (cases i) (auto simp add: awaiting_def)
qed

lemma excess_simps: "excess None = 0" "excess (Some (AwaitMel x)) = 0" "excess (Some (AwaitEmb x)) = 0" "excess (Some (AwaitWake x)) = 1"
  by (simp_all add: excess_def queue_bound_def)

lemma loop_head_excess: "excess (fst (loop_head s)) = 0"
  by (cases s rule: loop_head_cases) (simp_all add: excess_simps)

lemma resume_frame_bound:
  assumes step: "resume_frame E p (settle E p) s = (q, s')"
    and inv: "qlen s \<le> 32 + A + excess (Some p) + n"
  shows "qlen s' \<le> 32 + A + excess q + n + (if fails_late E p s then 1 else 0)"
proof (cases p)
  case (AwaitMel x)
  have "qlen s' = qlen s"
    using step after_mel_eb [of "mel_run E x" s] by (simp add: AwaitMel resume_frame_def settle_def)
  with inv show ?thesis by (simp add: AwaitMel excess_simps)
next
  case (AwaitEmb x)
  show ?thesis
  proof (cases "emb_run E x")
    case (Inl e)
    with step have "qlen s' = qlen s"
      by (auto simp add: AwaitEmb resume_frame_def settle_def after_emb_def eb_caught)
    with inv show ?thesis by (simp add: AwaitEmb excess_simps)
  next
    case (Inr e)
    from step have a: "after_emb (Inr e) s = (q, s')"
      by (simp add: AwaitEmb resume_frame_def settle_def Inr)
    show ?thesis
    proof (cases "15 \<le> qlen s")
      case False
      then have "after_emb (Inr e) s = loop_head (s\<lparr>wakeDetector := pushed e (wakeDetector s)\<rparr>)"
        by (simp add: after_emb_def Let_def pushed_def)
      with a have "qlen s' = Suc (qlen s)"
        using loop_head_embeddingBuffer [of "s\<lparr>wakeDetector := pushed e (wakeDetector s)\<rparr>"]
        by (simp add: pushed_def)
      with False show ?thesis by simp
    next
      case True
      show ?thesis
      proof (cases rule: after_emb_cases [of s e])
        case few
        with True show ?thesis by simp
      next
        case (classify w buf)
        with a inv show ?thesis
          by (auto simp add: pushed_def excess_simps AwaitEmb)
      next
        case (thrown err buf)
        with a have "qlen s' = Suc (qlen s)" "fails_late E p s"
          using True by (auto simp add: pushed_def eb_caught fails_late_def AwaitEmb Inr)
        with inv show ?thesis by (simp add: AwaitEmb excess_simps)
      qed
    qed
  qed
next
  case (AwaitWake x)
  show ?thesis
  proof (cases "wake_run E x")
    case (Inl e)
    with step have "qlen s' = qlen s" "fails_late E p s" "q = None"
      by (auto simp add: AwaitWake resume_frame_def settle_def after_wake_def eb_caught fails_late_def)
    with inv show ?thesis by (simp add: AwaitWake excess_simps)
  next
    case (Inr out)
    from step have a: "after_wake E (Inr out) s = (q, s')"
      by (simp add: AwaitWake resume_frame_def settle_def Inr)
    have "qlen s' \<le> 32"
      using after_wake_trims [of E out s] a by (simp split: if_splits)
    then show ?thesis by simp
  qed
qed

lemma awaiting_nth:
  "i < length calls \<Longrightarrow>
   awaiting calls = awaiting (take i calls @ drop (Suc i) calls) + excess (Some (calls ! i))"
  using awaiting_remove [of i calls] by (cases "calls ! i") (simp_all add: excess_simps)

lemma awaiting_update_excess:
  "i < length calls \<Longrightarrow>
   awaiting (calls[i := q]) = awaiting (take i calls @ drop (Suc i) calls) + excess (Some q)"
  using awaiting_update [of i calls q] awaiting_remove [of i calls]
  by (cases q; cases "calls ! i") (simp_all add: excess_simps)

lemma act_bound:
  assumes "qlen (fst w) \<le> 32 + awaiting (snd w) + n"
  shows "qlen (fst (act E w a)) \<le> 32 + awaiting (snd (act E w a)) + n + (if late E w a then 1 else 0)"
proof (cases a)
  case (Event x)
  show ?thesis
  proof (cases "\<exists>samples. x = Message samples")
    case True
    then obtain samples where x: "x = Message samples" ..
    show ?thesis
      using assms
      by (auto simp add: Event x act_def Let_def onmessage_def late_def awaiting_def)
  next
    case False
    then have "qlen (apply_op E (fst w) x) \<le> qlen (fst w)"
      by (intro apply_op_eb) simp
    moreover have "act E w a = (apply_op E (fst w) x, snd w)"
      using False by (cases x) (simp_all add: Event act_def Let_def)
    ultimately show ?thesis
      using assms by (simp add: Event late_def)
  qed
next
  case (Settle i)
  show ?thesis
  proof (cases "i < length (snd w)")
    case False
    then show ?thesis using assms by (simp add: Settle act_def Let_def late_def)
  next
    case True
    let ?p = "snd w ! i" and ?rest = "take i (snd w) @ drop (Suc i) (snd w)"
    obtain q s' where step: "resume_frame E ?p (settle E ?p) (fst w) = (q, s')"
      by (cases "resume_frame E ?p (settle E ?p) (fst w)")
    have inv: "qlen (fst w) \<le> 32 + awaiting ?rest + excess (Some ?p) + n"
      using assms awaiting_nth [OF True] by simp
    note b = resume_frame_bound [OF step inv]
    have l: "late E w a = fails_late E ?p (fst w)"
      using True by (simp add: late_def Settle)
    show ?thesis
    proof (cases q)
      case None
      then have "act E w a = (s', ?rest)"
        using True step by (simp add: Settle act_def Let_def)
      with b None show ?thesis by (simp add: l excess_simps)
    next
      case (Some p')
      then have "act E w a = (s', (snd w)[i := p'])"
        using True step by (simp add: Settle act_def Let_def)
      with b Some show ?thesis by (simp add: l awaiting_update_excess [OF True])
    qed
  qed
qed

lemma schedule_bound:
  "qlen (fst w) \<le> 32 + awaiting (snd w) + n \<Longrightarrow>
   qlen (fst (schedule E as w)) \<le> 32 + awaiting (snd (schedule E as w)) + n + late_count E w as"
proof (induction as arbitrary: w n)
  case Nil
  then show ?case by (simp add: schedule_def)
next
  case (Cons a as)
  have "qlen (fst (schedule E as (act E w a)))
      \<le> 32 + awaiting (snd (schedule E as (act E w a))) + (n + (if late E w a then 1 else 0))
          + late_count E (act E w a) as"
    by (rule Cons.IH) (use act_bound [OF Cons.prems, of E a] in simp)
  then show ?case by (simp add: schedule_def)
qed

text \<open>A call that nothing interleaves with is the list of actions in which the frame is
  posted and the answers to its call follow one another; so every sequence of events with
  calls run to their end is a list of actions.\<close>

lemma run_frame_scheduled:
  "\<exists>n. schedule E (replicate n (Settle (length calls))) (s, calls @ [p])
        = (run_frame E (Some p, s), calls)"
proof (induction E "(Some p, s)" arbitrary: p s rule: run_frame.induct)
  case (2 E p s)
  obtain q s' where step: "resume_frame E p (settle E p) s = (q, s')"
    by (cases "resume_frame E p (settle E p) s")
  have a: "act E (s, calls @ [p]) (Settle (length calls))
      = (s', case q of None \<Rightarrow> calls | Some p' \<Rightarrow> calls @ [p'])"
    by (cases q) (simp_all add: act_def step)
  show ?case
  proof (cases q)
    case None
    have "schedule E (replicate 1 (Settle (length calls))) (s, calls @ [p])
        = (run_frame E (Some p, s), calls)"
      by (simp add: schedule_def a step None)
    then show ?thesis ..
  next
    case (Some p')
    from 2 [of p' s'] step Some obtain n where
      n: "schedule E (replicate n (Settle (length calls))) (s', calls @ [p'])
        = (run_frame E (Some p', s'), calls)"
      by auto
    have "schedule E (replicate (Suc n) (Settle (length calls))) (s, calls @ [p])
        = (run_frame E (Some p, s), calls)"
      using n by (simp add: schedule_def a step Some)
    then show ?thesis ..
  qed
qed

lemma message_scheduled:
  "\<exists>n. schedule E (Event (Message x) # replicate n (Settle (length calls))) (s, calls)
        = (apply_op E s (Message x), calls)"
proof (cases "worklet (wakeDetector s) \<noteq> None \<and> running (wakeDetector s)")
  case True
  obtain n where "schedule E (replicate n (Settle (length calls))) (s, calls @ [AwaitMel x])
        = (run_frame E (Some (AwaitMel x), s), calls)"
    using run_frame_scheduled [of E calls s "AwaitMel x"] ..
  then have "schedule E (Event (Message x) # replicate n (Settle (length calls))) (s, calls)
        = (apply_op E s (Message x), calls)"
    using True by (auto simp add: schedule_def act_def apply_op_def onmessage_def simp del: run_frame.simps)
  then show ?thesis ..
next
  case False
  then have "schedule E (Event (Message x) # replicate 0 (Settle (length calls))) (s, calls)
        = (apply_op E s (Message x), calls)"
    by (auto simp add: schedule_def act_def apply_op_def onmessage_def)
  then show ?thesis ..
qed

lemma run_scheduled:
  "\<exists>as. schedule E as (s, calls) = (run E ops s, calls)"
proof (induction ops arbitrary: s)
  case Nil
  have "schedule E [] (s, calls) = (run E [] s, calls)"
    by (simp add: schedule_def run_def)
  then show ?case ..
next
  case (Cons x ops)
  have "\<exists>bs. schedule E bs (s, calls) = (apply_op E s x, calls)"
  proof (cases "\<exists>samples. x = Message samples")
    case True
    then show ?thesis using message_scheduled [of E _ calls s] by blast
  next
    case False
    then have "schedule E [Event x] (s, calls) = (apply_op E s x, calls)"
      by (cases x) (simp_all add: schedule_def act_def)
    then show ?thesis ..
  qed
  then obtain bs where bs: "schedule E bs (s, calls) = (apply_op E s x, calls)" ..
  from Cons [of "apply_op E s x"] obtain as where
    as: "schedule E as (apply_op E s x, calls) = (run E ops (apply_op E s x), calls)" ..
  have "schedule E (bs @ as) (s, calls) = (run E (x # ops) s, calls)"
    using bs as by (simp add: schedule_def run_def)
  then show ?case ..
qed

text \<open>
  C3 (as amended). Along every list of events and session answers, calls that overlap
  included, the embedding queue holds at most 32 entries, plus one for every call of
  \<^verbatim>\<open>processFrame\<close> that waits for the classifier, plus one for every late failure so
  far. In particular it holds at most 32 entries whenever no call waits for the classifier
  (so at rest, with no call in flight) and no stretch has failed late; errors caught
  before the \<^verbatim>\<open>push\<close> do not count. The same bound holds after every sequence of events
  with calls run to their end, and from a new instance, whose queue is empty. After a
  classifier answer the queue is cut to its last 16 entries exactly when it holds more
  than 32, and is left alone otherwise. A call that fails late skips the cut, see the
  counterexample below.
\<close>

theorem embedding_queue_bounded:
  assumes "length (embeddingBuffer (wakeDetector s)) \<le> 32 + awaiting calls"
  shows "length (embeddingBuffer (wakeDetector (fst (schedule E as (s, calls)))))
           \<le> 32 + awaiting (snd (schedule E as (s, calls))) + late_count E (s, calls) as
     \<and> (awaiting (snd (schedule E as (s, calls))) = 0 \<and> late_count E (s, calls) as = 0 \<longrightarrow>
          length (embeddingBuffer (wakeDetector (fst (schedule E as (s, calls))))) \<le> 32)
     \<and> (\<exists>bs. schedule E bs (s, calls) = (run E ops s, calls)
            \<and> length (embeddingBuffer (wakeDetector (run E ops s)))
                 \<le> 32 + awaiting calls + late_count E (s, calls) bs)
     \<and> length (embeddingBuffer (wakeDetector (fst (schedule E as (new_SpeakThen nodes opts, [])))))
           \<le> 32 + awaiting (snd (schedule E as (new_SpeakThen nodes opts, [])))
                + late_count E (new_SpeakThen nodes opts, []) as
     \<and> embeddingBuffer (wakeDetector (snd (after_wake E (Inr out) s')))
         = (if 32 < length (embeddingBuffer (wakeDetector s'))
            then drop (length (embeddingBuffer (wakeDetector s')) - 16)
                   (embeddingBuffer (wakeDetector s'))
            else embeddingBuffer (wakeDetector s'))"
proof -
  have a: "qlen (fst (schedule E as (s, calls)))
           \<le> 32 + awaiting (snd (schedule E as (s, calls))) + 0 + late_count E (s, calls) as"
    by (rule schedule_bound) (use assms in simp)
  obtain bs where bs: "schedule E bs (s, calls) = (run E ops s, calls)"
    using run_scheduled [of E s calls ops] ..
  have "qlen (fst (schedule E bs (s, calls)))
           \<le> 32 + awaiting (snd (schedule E bs (s, calls))) + 0 + late_count E (s, calls) bs"
    by (rule schedule_bound) (use assms in simp)
  then have b: "\<exists>bs. schedule E bs (s, calls) = (run E ops s, calls)
            \<and> qlen (run E ops s) \<le> 32 + awaiting calls + late_count E (s, calls) bs"
    using bs by (intro exI [of _ bs]) simp
  have c: "qlen (fst (schedule E as (new_SpeakThen nodes opts, [])))
           \<le> 32 + awaiting (snd (schedule E as (new_SpeakThen nodes opts, []))) + 0
                + late_count E (new_SpeakThen nodes opts, []) as"
    by (rule schedule_bound)
       (simp add: new_SpeakThen_def Let_def new_WakeWordDetector_def)
  show ?thesis
    using a b c after_wake_trims [of E out s'] by simp
qed

subsection \<open>Concrete runs\<close>

lemma mel_frames_zeros: "mel_frames (replicate (32 * n) 0) = replicate n (replicate 32 2)"
  using mel_frames_replicate [of n 0] by simp

lemma length_concat_replicate: "length (concat (replicate n xs)) = n * length xs"
  by (induction n) simp_all

lemma queued_with_queues: "queued n' k' s \<Longrightarrow> queued n k (with_queues n k s)"
  by (simp add: queued_def with_queues_def length_concat_replicate MELSPEC_WINDOW_def)

lemma with_queues_again: "with_queues n k (with_queues n' k' s) = with_queues n k s"
  by (simp add: with_queues_def)

lemma queued_classifying: "queued n k s \<Longrightarrow> queued n k (classifying s)"
  by (simp add: queued_def classifying_def length_concat_replicate)

lemma queued_caught: "queued n k (caught e s) = queued n k s"
  by (simp add: queued_def caught_def Let_def log_def)

lemma primed_with_queues: "primed n' k' s \<Longrightarrow> primed n k (with_queues n k s)"
  using queued_with_queues [of n' k' s n k]
  by (simp add: primed_def) (simp add: with_queues_def)

text \<open>One frame of 8 spectrogram rows arriving with 72 rows queued: one pass of the loop.\<close>

lemma queued_frame:
  assumes p: "queued 72 k s"
    and mel: "mel_run E x = Inr m" "mel_frames m = replicate 8 (replicate 32 2)"
    and emb: "\<And>w. emb_run E w = Inr (replicate 96 0)"
  shows "run_frame E (Some (AwaitMel x), s)
          = (if 16 \<le> Suc k
             then run_frame E
                    (after_wake E (wake_run E (concat (replicate 16 (replicate 96 0))))
                       (classifying (with_queues 72 (Suc k) s)))
             else with_queues 72 (Suc k) s)"
proof -
  let ?fr = "replicate 32 (2::real)" and ?ev = "replicate 96 (0::real)"
  let ?d = "wakeDetector s"
  define s0 where "s0 = s\<lparr>wakeDetector := ?d\<lparr>melFrames := replicate 80 ?fr\<rparr>\<rparr>"
  define s1 where "s1 = s0\<lparr>wakeDetector := (wakeDetector s0)\<lparr>melInputBuffer := concat (replicate 76 ?fr)\<rparr>\<rparr>"
  define d2 where "d2 = (wakeDetector s1)\<lparr>embeddingBuffer := replicate (Suc k) ?ev,
                                  melFrames := replicate 72 ?fr\<rparr>"
  define s2 where "s2 = s1\<lparr>wakeDetector := d2\<rparr>"
  define s3 where "s3 = s1\<lparr>wakeDetector := d2\<lparr>embInputBuffer := concat (replicate 16 ?ev)\<rparr>\<rparr>"
  from p have mf: "melFrames ?d = replicate 72 ?fr" and eb: "embeddingBuffer ?d = replicate k ?ev"
    and mb: "length (melInputBuffer ?d) = MELSPEC_WINDOW * 32"
    and ebuf: "length (embInputBuffer ?d) = 16 * 96"
    by (simp_all add: queued_def)
  have a: "after_mel (mel_run E x) s = loop_head s0"
    unfolding mel by (simp add: after_mel_def mel mf s0_def flip: replicate_add)
  have b: "loop_head s0 = (Some (AwaitEmb (concat (replicate 76 ?fr))), s1)"
    using loop_head_window [of s0] mb
    by (simp add: s0_def s1_def MELSPEC_WINDOW_def)
  have q: "embeddingBuffer (wakeDetector s1) @ [?ev] = replicate (Suc k) ?ev"
    by (simp add: s1_def s0_def eb replicate_append_same)
  have dq: "16 \<le> Suc k \<Longrightarrow> drop (Suc k - 16) (replicate (Suc k) ?ev) = replicate 16 ?ev"
    by (simp del: replicate.simps)
  define Q where "Q = replicate (Suc k) ?ev"
  have lq: "length Q = Suc k"
    by (simp add: Q_def)
  have c0: "after_emb (Inr ?ev) s1
     = (if 16 \<le> length Q
        then (Some (AwaitWake (concat (drop (length Q - 16) Q))),
              s1\<lparr>wakeDetector := d2\<lparr>embInputBuffer := concat (drop (length Q - 16) Q)\<rparr>\<rparr>)
        else loop_head (s1\<lparr>wakeDetector := d2\<rparr>))"
  proof (rule after_emb_window)
    show "Q = embeddingBuffer (wakeDetector s1) @ [?ev]"
      unfolding Q_def q ..
    show "\<forall>v\<in>set (drop (length Q - 16) Q). length v = 96"
      unfolding Q_def by (auto simp del: replicate.simps dest: in_set_dropD)
    show "length (embInputBuffer (wakeDetector s1)) = 16 * 96"
      using ebuf by (simp add: s1_def s0_def)
    show "d2 = (wakeDetector s1)\<lparr>embeddingBuffer := Q,
                                  melFrames := drop 8 (melFrames (wakeDetector s1))\<rparr>"
      by (simp add: d2_def Q_def s1_def s0_def del: replicate.simps)
  qed
  have c: "after_emb (Inr ?ev) s1
     = (if 16 \<le> Suc k
        then (Some (AwaitWake (concat (replicate 16 ?ev))), s3)
        else loop_head s2)"
  proof (cases "16 \<le> Suc k")
    case True
    then show ?thesis
      unfolding c0 lq by (simp only: Q_def dq s3_def if_True)
  next
    case False
    then show ?thesis
      unfolding c0 lq by (simp only: s2_def if_False)
  qed
  have d: "loop_head s2 = (None, s2)"
    by (rule loop_head_short) (simp add: s2_def d2_def MELSPEC_WINDOW_def)
  have e2: "s2 = with_queues 72 (Suc k) s"
    by (simp add: s2_def d2_def s1_def s0_def with_queues_def del: replicate.simps)
  have e3: "s3 = classifying s2"
    by (simp add: s3_def s2_def classifying_def)
  show ?thesis
    unfolding e2 [symmetric] e3 [symmetric]
    by (simp add: resume_frame_def settle_def a b c d emb)
qed

lemma frame_below_window:
  assumes "mel_run E x = Inr m"
    and "length (melFrames (wakeDetector s)) + length (mel_frames m) < MELSPEC_WINDOW"
  shows "run_frame E (Some (AwaitMel x), s)
     = s\<lparr>wakeDetector := (wakeDetector s)\<lparr>melFrames := melFrames (wakeDetector s) @ mel_frames m\<rparr>\<rparr>"
  using assms
  by (simp add: resume_frame_def settle_def after_mel_def loop_head_short)

lemma message_processFrame:
  "worklet (wakeDetector s) \<noteq> None \<Longrightarrow> running (wakeDetector s) \<Longrightarrow>
   apply_op E s (Message x) = processFrame E x s"
  by (auto simp add: apply_op_def onmessage_def processFrame_def simp del: run_frame.simps)

lemma mel_run_test_env: "mel_run test_env x = Inr (replicate (32 * length x) 0)"
  by (simp add: test_env_def)

lemma test_env_frame_8:
  "mel_run test_env (replicate 8 0) = Inr (replicate 256 0)"
  "mel_frames (replicate 256 0) = replicate 8 (replicate 32 2)"
  "emb_run test_env w = Inr (replicate 96 0)"
  "wake_run test_env w = Inr [9 / 10]"
  using mel_frames_zeros [of 8] by (simp_all add: test_env_def)

lemma warm_instance_eq:
  "warm_instance = started_instance\<lparr>wakeDetector :=
      (wakeDetector started_instance)\<lparr>melFrames := replicate 72 (replicate 32 2)\<rparr>\<rparr>"
proof -
  have "run_frame test_env (Some (AwaitMel (replicate 72 0)), started_instance)
     = started_instance\<lparr>wakeDetector := (wakeDetector started_instance)
         \<lparr>melFrames := melFrames (wakeDetector started_instance)
              @ mel_frames (replicate (32 * 72) 0)\<rparr>\<rparr>"
    by (rule frame_below_window)
       (simp_all add: mel_run_test_env length_mel_frames started_instance_fields MELSPEC_WINDOW_def)
  then show ?thesis
    by (simp add: warm_instance_def apply_op_def onmessage_def started_instance_fields
        mel_frames_zeros [of 72, simplified])
qed

lemma primed_warm: "primed 72 0 warm_instance"
  unfolding warm_instance_eq
  by (simp add: primed_def queued_def started_instance_fields)

lemma warm_instance_trace: "trace warm_instance = []"
  unfolding warm_instance_eq by (simp add: started_instance_fields)

lemma quiet_frame:
  assumes "primed 72 k s" and "Suc k < 16"
  shows "apply_op test_env s (Message (replicate 8 0)) = with_queues 72 (Suc k) s"
proof -
  from assms(1) have w: "worklet (wakeDetector s) \<noteq> None" "running (wakeDetector s)"
    and q: "queued 72 k s"
    by (simp_all add: primed_def)
  have "run_frame test_env (Some (AwaitMel (replicate 8 0)), s) = with_queues 72 (Suc k) s"
    using queued_frame [OF q test_env_frame_8(1,2) test_env_frame_8(3)] assms(2) by simp
  then show ?thesis
    unfolding message_processFrame [OF w] processFrame_def .
qed

lemma quiet_frames:
  "primed 72 k s \<Longrightarrow> k + n < 16 \<Longrightarrow>
   run test_env (replicate n (Message (replicate 8 0))) s = (if n = 0 then s else with_queues 72 (k + n) s)"
proof (induction n arbitrary: k s)
  case 0
  then show ?case by (simp add: run_def)
next
  case (Suc n)
  let ?s' = "with_queues 72 (Suc k) s"
  from Suc.prems have step: "apply_op test_env s (Message (replicate 8 0)) = ?s'"
    by (intro quiet_frame) simp_all
  have p': "primed 72 (Suc k) ?s'"
    by (rule primed_with_queues [OF Suc.prems(1)])
  have "run test_env (replicate n (Message (replicate 8 0))) ?s'
      = (if n = 0 then ?s' else with_queues 72 (Suc k + n) ?s')"
    using Suc.prems(2) by (intro Suc.IH [OF p']) simp
  then show ?case
    using step by (simp add: run_def with_queues_again)
qed

lemma hot_instance_eq: "hot_instance = with_queues 72 15 started_instance"
proof -
  have "hot_instance = with_queues 72 15 warm_instance"
    unfolding hot_instance_def using quiet_frames [OF primed_warm, of 15] by simp
  then show ?thesis
    by (simp add: warm_instance_eq with_queues_def)
qed

lemma warm_frame:
  "processFrame test_env (replicate 8 0) warm_instance = with_queues 72 1 warm_instance"
  using quiet_frame [OF primed_warm] primed_warm
  by (simp add: message_processFrame primed_def)

lemma warm_frame_errors:
  "errors_caught (processFrame test_env (replicate 8 0) warm_instance) = errors_caught warm_instance"
  by (simp add: errors_caught_def warm_frame with_queues_def)

lemma warm_frame_suspends:
  "resume_frame test_env (AwaitMel (replicate 8 0)) (Inr (replicate 256 0)) warm_instance
     = (Some (AwaitEmb (concat (replicate 76 (replicate 32 2)))),
        warm_instance\<lparr>wakeDetector := (wakeDetector warm_instance)
          \<lparr>melFrames := replicate 80 (replicate 32 2),
            melInputBuffer := concat (replicate 76 (replicate 32 2))\<rparr>\<rparr>)"
proof -
  let ?s0 = "warm_instance\<lparr>wakeDetector := (wakeDetector warm_instance)
          \<lparr>melFrames := replicate 80 (replicate 32 2)\<rparr>\<rparr>"
  have q: "queued 72 0 warm_instance"
    using primed_warm by (simp add: primed_def)
  have a: "after_mel (Inr (replicate 256 0)) warm_instance = loop_head ?s0"
    using q by (simp add: after_mel_def test_env_frame_8(2) queued_def flip: replicate_add)
  have b: "loop_head ?s0
     = (Some (AwaitEmb (concat (replicate 76 (replicate 32 2)))),
        ?s0\<lparr>wakeDetector := (wakeDetector ?s0)
          \<lparr>melInputBuffer := concat (replicate 76 (replicate 32 2))\<rparr>\<rparr>)"
    using loop_head_window [of ?s0] q
    by (simp add: queued_def MELSPEC_WINDOW_def)
  show ?thesis
    by (simp add: resume_frame_def a b)
qed

theorem mel_queue_drained_witness:
  "errors_caught (processFrame test_env (replicate 8 0) warm_instance) = errors_caught warm_instance
   \<and> length (melFrames (wakeDetector (processFrame test_env (replicate 8 0) warm_instance))) = 72
   \<and> length (melFrames (wakeDetector (processFrame test_env (replicate 8 0) warm_instance)))
        < MELSPEC_WINDOW
   \<and> length (melFrames (wakeDetector started_instance)) < MELSPEC_WINDOW
   \<and> loop_head started_instance = (None, started_instance)
   \<and> resume_frame test_env (AwaitMel (replicate 8 0)) (Inr (replicate 256 0)) warm_instance
     = (Some (AwaitEmb (concat (replicate 76 (replicate 32 2)))),
        warm_instance\<lparr>wakeDetector := (wakeDetector warm_instance)
          \<lparr>melFrames := replicate 80 (replicate 32 2),
            melInputBuffer := concat (replicate 76 (replicate 32 2))\<rparr>\<rparr>)
   \<and> MELSPEC_WINDOW \<le> length (melFrames (wakeDetector
        (warm_instance\<lparr>wakeDetector := (wakeDetector warm_instance)
          \<lparr>melFrames := replicate 80 (replicate 32 2),
            melInputBuffer := concat (replicate 76 (replicate 32 2))\<rparr>\<rparr>)))"
proof -
  have a: "length (melFrames (wakeDetector (processFrame test_env (replicate 8 0) warm_instance))) = 72"
    by (simp add: warm_frame with_queues_def)
  have b: "length (melFrames (wakeDetector started_instance)) < MELSPEC_WINDOW"
    by (simp add: started_instance_fields MELSPEC_WINDOW_def)
  show ?thesis
    using a b warm_frame_errors warm_frame_suspends
      mel_queue_drained [of test_env "replicate 8 0" warm_instance]
      mel_queue_drained [of test_env "replicate 8 0" started_instance]
      mel_queue_drained [where E = test_env and x = "replicate 8 0" and s = warm_instance
        and p = "AwaitMel (replicate 8 0)" and r = "Inr (replicate 256 0)"
        and w = "concat (replicate 76 (replicate 32 2))"
        and s' = "warm_instance\<lparr>wakeDetector := (wakeDetector warm_instance)
          \<lparr>melFrames := replicate 80 (replicate 32 2),
            melInputBuffer := concat (replicate 76 (replicate 32 2))\<rparr>\<rparr>"]
    by simp
qed


lemma melFrames_caught: "melFrames (wakeDetector (caught e s)) = melFrames (wakeDetector s)"
  by (simp add: caught_def Let_def log_def)

text \<open>
  Counterexample to C2 as stated: the first frame yields 76 spectrogram frames, the
  embedding session rejects, the \<^verbatim>\<open>catch\<close> block reports, and \<^verbatim>\<open>processFrame\<close> returns
  with all 76 frames still queued.
\<close>

theorem mel_queue_not_drained_counterexample:
  "\<not> length (melFrames (wakeDetector
         (processFrame emb_failing_env (replicate 76 0) started_instance))) < MELSPEC_WINDOW"
proof -
  let ?fr = "replicate 32 (2::real)"
  define s0 where "s0 = started_instance\<lparr>wakeDetector :=
      (wakeDetector started_instance)\<lparr>melFrames := replicate 76 ?fr\<rparr>\<rparr>"
  define s1 where "s1 = s0\<lparr>wakeDetector := (wakeDetector s0)
      \<lparr>melInputBuffer := concat (replicate 76 ?fr)\<rparr>\<rparr>"
  have a: "after_mel (mel_run emb_failing_env (replicate 76 0)) started_instance = loop_head s0"
    by (simp add: emb_failing_env_def mel_run_test_env after_mel_def s0_def
        started_instance_fields mel_frames_zeros [of 76, simplified])
  have b: "loop_head s0 = (Some (AwaitEmb (concat (replicate 76 ?fr))), s1)"
    using loop_head_window [of s0]
    by (simp add: s0_def s1_def MELSPEC_WINDOW_def started_instance_fields)
  have c: "emb_run emb_failing_env (concat (replicate 76 ?fr)) = Inl (Error ''inference failed'')"
    by (simp add: emb_failing_env_def)
  have "processFrame emb_failing_env (replicate 76 0) started_instance
      = caught (Error ''inference failed'') s1"
    by (simp add: processFrame_def resume_frame_def settle_def a b c after_emb_def)
  then show ?thesis
    by (simp add: melFrames_caught s1_def s0_def MELSPEC_WINDOW_def)
qed

lemma primed_caught: "primed n k (caught e s) = primed n k s"
  by (simp add: primed_def queued_caught) (simp add: caught_def Let_def log_def)

lemma primed_classifying: "primed n k s \<Longrightarrow> primed n k (classifying s)"
  using queued_classifying [of n k s]
  by (simp add: primed_def) (simp add: classifying_def)

lemma primed_step_failing:
  assumes "primed 72 k s"
  shows "primed 72 (Suc k) (apply_op failing_env s (Message (replicate 8 0)))"
proof -
  have mel: "mel_run failing_env (replicate 8 0) = Inr (replicate 256 0)"
    by (simp add: failing_env_def test_env_def)
  have emb: "\<And>w. emb_run failing_env w = Inr (replicate 96 0)"
    by (simp add: failing_env_def test_env_def)
  have wk: "\<And>w. wake_run failing_env w = Inl (Error ''inference failed'')"
    by (simp add: failing_env_def)
  from assms have w: "worklet (wakeDetector s) \<noteq> None" "running (wakeDetector s)"
    and q: "queued 72 k s"
    by (simp_all add: primed_def)
  have r: "run_frame failing_env (Some (AwaitMel (replicate 8 0)), s)
      = (if 16 \<le> Suc k
         then caught (Error ''inference failed'') (classifying (with_queues 72 (Suc k) s))
         else with_queues 72 (Suc k) s)"
    unfolding queued_frame [OF q mel test_env_frame_8(2) emb] wk
    by (simp add: after_wake_def)
  have p2: "primed 72 (Suc k) (with_queues 72 (Suc k) s)"
    by (rule primed_with_queues [OF assms])
  show ?thesis
    unfolding message_processFrame [OF w] processFrame_def r
    using p2 primed_classifying [OF p2] by (simp add: primed_caught)
qed

lemma primed_run_failing:
  "primed 72 k s \<Longrightarrow> primed 72 (k + n) (run failing_env (replicate n (Message (replicate 8 0))) s)"
proof (induction n arbitrary: k s)
  case 0
  then show ?case by (simp add: run_def)
next
  case (Suc n)
  have "primed 72 (Suc k + n)
      (run failing_env (replicate n (Message (replicate 8 0)))
         (apply_op failing_env s (Message (replicate 8 0))))"
    by (rule Suc.IH [OF primed_step_failing [OF Suc.prems]])
  then show ?case by (simp add: run_def)
qed

text \<open>The three stretches of a call for a frame of 8 spectrogram rows arriving with 72
  rows queued, and the runs of the quiet browser.\<close>

lemma queued_mel_stretch:
  assumes q: "queued 72 k s"
    and mel: "mel_run E x = Inr m" "mel_frames m = replicate 8 (replicate 32 2)"
  shows "resume_frame E (AwaitMel x) (settle E (AwaitMel x)) s
     = (Some (AwaitEmb (concat (replicate 76 (replicate 32 2)))), windowed s)"
proof -
  let ?s0 = "s\<lparr>wakeDetector := (wakeDetector s)\<lparr>melFrames := replicate 80 (replicate 32 2)\<rparr>\<rparr>"
  have a: "after_mel (mel_run E x) s = loop_head ?s0"
    using q by (simp add: after_mel_def mel queued_def flip: replicate_add)
  have b: "loop_head ?s0 = (Some (AwaitEmb (concat (replicate 76 (replicate 32 2)))), windowed s)"
    using loop_head_window [of ?s0] q
    by (simp add: queued_def MELSPEC_WINDOW_def windowed_def)
  show ?thesis
    by (simp add: resume_frame_def settle_def a b)
qed

lemma queued_emb_stretch:
  assumes q: "queued 72 k s"
    and emb: "emb_run E (concat (replicate 76 (replicate 32 2))) = Inr (replicate 96 0)"
  shows "resume_frame E (AwaitEmb (concat (replicate 76 (replicate 32 2))))
           (settle E (AwaitEmb (concat (replicate 76 (replicate 32 2))))) (windowed s)
     = (if 16 \<le> Suc k
        then (Some (AwaitWake (concat (replicate 16 (replicate 96 0)))),
              classifying (with_queues 72 (Suc k) s))
        else (None, with_queues 72 (Suc k) s))"
proof -
  let ?fr = "replicate 32 (2::real)" and ?ev = "replicate 96 (0::real)"
  define Q where "Q = replicate (Suc k) ?ev"
  define d2 where "d2 = (wakeDetector (windowed s))\<lparr>embeddingBuffer := Q,
                          melFrames := drop 8 (melFrames (wakeDetector (windowed s)))\<rparr>"
  from q have eb: "embeddingBuffer (wakeDetector s) = replicate k ?ev"
    and ebuf: "length (embInputBuffer (wakeDetector s)) = 16 * 96"
    by (simp_all add: queued_def)
  have lq: "length Q = Suc k"
    by (simp add: Q_def)
  have dq: "16 \<le> Suc k \<Longrightarrow> drop (Suc k - 16) Q = replicate 16 ?ev"
    unfolding Q_def by (simp del: replicate.simps)
  have c0: "after_emb (Inr ?ev) (windowed s)
     = (if 16 \<le> length Q
        then (Some (AwaitWake (concat (drop (length Q - 16) Q))),
              (windowed s)\<lparr>wakeDetector := d2\<lparr>embInputBuffer := concat (drop (length Q - 16) Q)\<rparr>\<rparr>)
        else loop_head ((windowed s)\<lparr>wakeDetector := d2\<rparr>))"
  proof (rule after_emb_window)
    show "Q = embeddingBuffer (wakeDetector (windowed s)) @ [?ev]"
      unfolding Q_def by (simp add: windowed_def eb replicate_append_same)
    show "\<forall>v\<in>set (drop (length Q - 16) Q). length v = 96"
      unfolding Q_def by (auto simp del: replicate.simps dest: in_set_dropD)
    show "length (embInputBuffer (wakeDetector (windowed s))) = 16 * 96"
      using ebuf by (simp add: windowed_def)
    show "d2 = (wakeDetector (windowed s))\<lparr>embeddingBuffer := Q,
                  melFrames := drop 8 (melFrames (wakeDetector (windowed s)))\<rparr>"
      by (rule d2_def)
  qed
  have e2: "(windowed s)\<lparr>wakeDetector := d2\<rparr> = with_queues 72 (Suc k) s"
    by (simp add: d2_def Q_def windowed_def with_queues_def del: replicate.simps)
  have e3: "(windowed s)\<lparr>wakeDetector := d2\<lparr>embInputBuffer := concat (replicate 16 ?ev)\<rparr>\<rparr>
      = classifying (with_queues 72 (Suc k) s)"
    unfolding e2 [symmetric] by (simp add: classifying_def)
  have d: "loop_head (with_queues 72 (Suc k) s) = (None, with_queues 72 (Suc k) s)"
    by (rule loop_head_short) (simp add: with_queues_def MELSPEC_WINDOW_def)
  have c: "after_emb (Inr ?ev) (windowed s)
     = (if 16 \<le> Suc k
        then (Some (AwaitWake (concat (replicate 16 ?ev))), classifying (with_queues 72 (Suc k) s))
        else (None, with_queues 72 (Suc k) s))"
  proof (cases "16 \<le> Suc k")
    case True
    then show ?thesis
      unfolding c0 lq by (simp only: dq e3 if_True)
  next
    case False
    then show ?thesis
      unfolding c0 lq by (simp only: e2 d if_False)
  qed
  show ?thesis
    by (simp add: resume_frame_def settle_def emb c)
qed

lemma queued_wake_stretch:
  assumes "length (melFrames (wakeDetector s)) < MELSPEC_WINDOW" and "wake_run E x = Inr out"
  shows "resume_frame E (AwaitWake x) (settle E (AwaitWake x)) s = (None, trimmed (detected E out s))"
proof -
  have "loop_head (trimmed (detected E out s)) = (None, trimmed (detected E out s))"
    by (rule loop_head_short) (simp add: trimmed_fields detected_fields assms(1))
  then show ?thesis
    by (simp add: resume_frame_def settle_def assms(2) after_wake_Inr)
qed

lemma quiet_env_sessions:
  "mel_run quiet_env x = Inr (replicate (32 * length x) 0)"
  "emb_run quiet_env w = Inr (replicate 96 0)"
  "wake_run quiet_env w = Inr [1 / 8]"
  by (simp_all add: quiet_env_def test_env_def)

lemma with_queues_fields:
  "melFrames (wakeDetector (with_queues n k s)) = replicate n (replicate 32 2)"
  "embeddingBuffer (wakeDetector (with_queues n k s)) = replicate k (replicate 96 0)"
  "d_confidence (wakeDetector (with_queues n k s)) = d_confidence (wakeDetector s)"
  "onDetection (wakeDetector (with_queues n k s)) = onDetection (wakeDetector s)"
  "running (wakeDetector (with_queues n k s)) = running (wakeDetector s)"
  "worklet (wakeDetector (with_queues n k s)) = worklet (wakeDetector s)"
  "trace (with_queues n k s) = trace s"
  "state (with_queues n k s) = state s"
  by (simp_all add: with_queues_def)

lemma classifying_fields:
  "melFrames (wakeDetector (classifying s)) = melFrames (wakeDetector s)"
  "embeddingBuffer (wakeDetector (classifying s)) = embeddingBuffer (wakeDetector s)"
  "d_confidence (wakeDetector (classifying s)) = d_confidence (wakeDetector s)"
  "onDetection (wakeDetector (classifying s)) = onDetection (wakeDetector s)"
  "running (wakeDetector (classifying s)) = running (wakeDetector s)"
  "worklet (wakeDetector (classifying s)) = worklet (wakeDetector s)"
  "trace (classifying s) = trace s"
  "state (classifying s) = state s"
  by (simp_all add: classifying_def)

text \<open>In the quiet browser a frame of 8 spectrogram rows leaves the detector running.\<close>

lemma primed_step_quiet:
  assumes p: "primed 72 k s" and conf: "d_confidence (wakeDetector s) = 1 / 2" and k: "Suc k \<le> 32"
  shows "primed 72 (Suc k) (apply_op quiet_env s (Message (replicate 8 0)))
     \<and> d_confidence (wakeDetector (apply_op quiet_env s (Message (replicate 8 0)))) = 1 / 2"
proof -
  let ?S = "classifying (with_queues 72 (Suc k) s)"
  from p have w: "worklet (wakeDetector s) \<noteq> None" "running (wakeDetector s)"
    and q: "queued 72 k s"
    by (simp_all add: primed_def)
  have mel: "mel_run quiet_env (replicate 8 0) = Inr (replicate 256 0)"
    by (simp add: quiet_env_sessions)
  have d: "detected quiet_env [1 / 8] ?S = ?S"
    by (simp add: detected_def classifying_fields with_queues_fields conf)
  have t: "trimmed ?S = ?S"
    using k by (simp add: trimmed_def classifying_fields with_queues_fields)
  have l: "loop_head ?S = (None, ?S)"
    by (rule loop_head_short) (simp add: classifying_fields with_queues_fields MELSPEC_WINDOW_def)
  have r: "run_frame quiet_env (Some (AwaitMel (replicate 8 0)), s)
      = (if 16 \<le> Suc k then ?S else with_queues 72 (Suc k) s)"
    unfolding queued_frame [OF q mel test_env_frame_8(2) quiet_env_sessions(2)] quiet_env_sessions
    by (simp add: after_wake_Inr d t l)
  have p2: "primed 72 (Suc k) (with_queues 72 (Suc k) s)"
    by (rule primed_with_queues [OF p])
  show ?thesis
    unfolding message_processFrame [OF w] processFrame_def r
    using p2 primed_classifying [OF p2] conf
    by (simp add: classifying_fields with_queues_fields)
qed

lemma primed_run_quiet:
  "primed 72 k s \<Longrightarrow> d_confidence (wakeDetector s) = 1 / 2 \<Longrightarrow> k + n \<le> 32 \<Longrightarrow>
   primed 72 (k + n) (run quiet_env (replicate n (Message (replicate 8 0))) s)
   \<and> d_confidence (wakeDetector (run quiet_env (replicate n (Message (replicate 8 0))) s)) = 1 / 2"
proof (induction n arbitrary: k s)
  case 0
  then show ?case by (simp add: run_def)
next
  case (Suc n)
  let ?s' = "apply_op quiet_env s (Message (replicate 8 0))"
  have step: "primed 72 (Suc k) ?s' \<and> d_confidence (wakeDetector ?s') = 1 / 2"
    using Suc.prems by (intro primed_step_quiet) simp_all
  have "primed 72 (Suc k + n) (run quiet_env (replicate n (Message (replicate 8 0))) ?s')
     \<and> d_confidence (wakeDetector (run quiet_env (replicate n (Message (replicate 8 0))) ?s')) = 1 / 2"
    using step Suc.prems(3) by (intro Suc.IH) simp_all
  then show ?case by (simp add: run_def)
qed

lemma warm_instance_confidence: "d_confidence (wakeDetector warm_instance) = 1 / 2"
  unfolding warm_instance_eq by (simp add: started_instance_fields)

lemma primed_full: "primed 72 32 full_instance"
  unfolding full_instance_def
  using primed_run_quiet [OF primed_warm warm_instance_confidence, of 32] by simp

text \<open>Worlds: a posted frame starts a call, an answer runs a stretch.\<close>

lemma act_message:
  "worklet (wakeDetector s) \<noteq> None \<Longrightarrow> running (wakeDetector s) \<Longrightarrow>
   act E (s, calls) (Event (Message x)) = (s, calls @ [AwaitMel x])"
  by (auto simp add: act_def onmessage_def)

lemma act_settle:
  "i < length calls \<Longrightarrow> resume_frame E (calls ! i) (settle E (calls ! i)) s = (q, s') \<Longrightarrow>
   act E (s, calls) (Settle i)
     = (s', case q of None \<Rightarrow> take i calls @ drop (Suc i) calls | Some p \<Rightarrow> calls[i := p])"
  by (cases q) (simp_all add: act_def)

lemma empty_frame:
  assumes "length (melFrames (wakeDetector s)) < MELSPEC_WINDOW" and "mel_run E [] = Inr []"
  shows "resume_frame E (AwaitMel []) (settle E (AwaitMel [])) s = (None, s)"
proof -
  have "s\<lparr>wakeDetector := (wakeDetector s)\<lparr>melFrames := melFrames (wakeDetector s)\<rparr>\<rparr> = s"
    by simp
  then show ?thesis
    using assms
    by (simp add: resume_frame_def settle_def after_mel_def mel_frames_def loop_head_short)
qed

lemma schedule_Cons: "schedule E (a # as) w = schedule E as (act E w a)"
  by (simp add: schedule_def)

lemma schedule_Nil: "schedule E [] w = w"
  by (simp add: schedule_def)

lemma late_event: "late E w (Event x) = False"
  by (simp add: late_def)

lemma late_settle: "i < length calls \<Longrightarrow> late E (s, calls) (Settle i) = fails_late E (calls ! i) s"
  by (simp add: late_def)

text \<open>
  The bound with calls that overlap, in the quiet browser with 32 embeddings queued: the
  first call pushes the 33rd embedding and waits for the classifier; the second call runs
  to its end meanwhile and leaves 33 embeddings, one call waiting; the classifier answers,
  and the queue is cut to 16. No stretch fails late. In the browser whose embedding
  session rejects, the call catches the error before the \<^verbatim>\<open>push\<close>: the failure is
  not late and 32 embeddings stay queued.
\<close>

theorem embedding_queue_bounded_witness:
  "length (embeddingBuffer (wakeDetector full_instance)) = 32
   \<and> length (embeddingBuffer (wakeDetector full_instance)) \<le> 32 + awaiting []
   \<and> late_count quiet_env (full_instance, []) overlapping_calls = 0
   \<and> late_count quiet_env (full_instance, []) (take 5 overlapping_calls) = 0
   \<and> length (embeddingBuffer (wakeDetector
        (fst (schedule quiet_env (take 5 overlapping_calls) (full_instance, []))))) = 33
   \<and> snd (schedule quiet_env (take 5 overlapping_calls) (full_instance, []))
        = [AwaitWake (concat (replicate 16 (replicate 96 0)))]
   \<and> length (embeddingBuffer (wakeDetector
        (fst (schedule quiet_env (take 5 overlapping_calls) (full_instance, [])))))
        \<le> 32 + awaiting (snd (schedule quiet_env (take 5 overlapping_calls) (full_instance, [])))
             + late_count quiet_env (full_instance, []) (take 5 overlapping_calls)
   \<and> length (embeddingBuffer (wakeDetector
        (fst (schedule quiet_env overlapping_calls (full_instance, []))))) = 16
   \<and> snd (schedule quiet_env overlapping_calls (full_instance, [])) = []
   \<and> length (embeddingBuffer (wakeDetector
        (fst (schedule quiet_env overlapping_calls (full_instance, []))))) \<le> 32
   \<and> late_count emb_failing_env (full_instance, []) (take 3 overlapping_calls) = 0
   \<and> errors_caught (fst (schedule emb_failing_env (take 3 overlapping_calls) (full_instance, [])))
        = Suc (errors_caught full_instance)
   \<and> snd (schedule emb_failing_env (take 3 overlapping_calls) (full_instance, [])) = []
   \<and> length (embeddingBuffer (wakeDetector
        (fst (schedule emb_failing_env (take 3 overlapping_calls) (full_instance, []))))) = 32
   \<and> length (embeddingBuffer (wakeDetector
        (fst (schedule emb_failing_env (take 3 overlapping_calls) (full_instance, []))))) \<le> 32"
proof -
  let ?x = "replicate 8 (0::real)"
  let ?W = "concat (replicate 76 (replicate 32 (2::real)))"
  let ?C = "concat (replicate 16 (replicate 96 (0::real)))"
  let ?F = full_instance
  let ?G = "classifying (with_queues 72 33 full_instance)"
  let ?H = "trimmed (detected quiet_env [1 / 8] ?G)"
  from primed_full have w: "worklet (wakeDetector ?F) \<noteq> None" "running (wakeDetector ?F)"
    and q: "queued 72 32 ?F"
    by (simp_all add: primed_def)
  have n: "length (embeddingBuffer (wakeDetector ?F)) = 32"
    using q by (simp add: queued_def)
  have wG: "worklet (wakeDetector ?G) \<noteq> None" "running (wakeDetector ?G)"
    using w by (simp_all add: classifying_fields with_queues_fields)
  have lG: "length (melFrames (wakeDetector ?G)) < MELSPEC_WINDOW"
    by (simp add: classifying_fields with_queues_fields MELSPEC_WINDOW_def)
  have r2: "resume_frame quiet_env (AwaitMel ?x) (settle quiet_env (AwaitMel ?x)) ?F
      = (Some (AwaitEmb ?W), windowed ?F)"
    by (rule queued_mel_stretch [OF q _ test_env_frame_8(2)]) (simp add: quiet_env_sessions)
  have r3: "resume_frame quiet_env (AwaitEmb ?W) (settle quiet_env (AwaitEmb ?W)) (windowed ?F)
      = (Some (AwaitWake ?C), ?G)"
    using queued_emb_stretch [OF q quiet_env_sessions(2)] by simp
  have r5: "resume_frame quiet_env (AwaitMel []) (settle quiet_env (AwaitMel [])) ?G = (None, ?G)"
    by (rule empty_frame [OF lG]) (simp add: quiet_env_sessions)
  have r6: "resume_frame quiet_env (AwaitWake ?C) (settle quiet_env (AwaitWake ?C)) ?G = (None, ?H)"
    by (rule queued_wake_stretch [OF lG]) (simp add: quiet_env_sessions)
  have a1: "act quiet_env (?F, []) (Event (Message ?x)) = (?F, [AwaitMel ?x])"
    using act_message [OF w, of quiet_env "[]" ?x] by simp
  have a2: "act quiet_env (?F, [AwaitMel ?x]) (Settle 0) = (windowed ?F, [AwaitEmb ?W])"
    using act_settle [of 0 "[AwaitMel ?x]" quiet_env ?F] r2 by simp
  have a3: "act quiet_env (windowed ?F, [AwaitEmb ?W]) (Settle 0) = (?G, [AwaitWake ?C])"
    using act_settle [of 0 "[AwaitEmb ?W]" quiet_env "windowed ?F"] r3 by simp
  have a4: "act quiet_env (?G, [AwaitWake ?C]) (Event (Message [])) = (?G, [AwaitWake ?C, AwaitMel []])"
    using act_message [OF wG, of quiet_env "[AwaitWake ?C]" "[]"] by simp
  have a5: "act quiet_env (?G, [AwaitWake ?C, AwaitMel []]) (Settle (Suc 0)) = (?G, [AwaitWake ?C])"
    by (simp add: act_def r5)
  have a6: "act quiet_env (?G, [AwaitWake ?C]) (Settle 0) = (?H, [])"
    using act_settle [of 0 "[AwaitWake ?C]" quiet_env ?G] r6 by simp
  have l3: "\<not> fails_late quiet_env (AwaitEmb ?W) (windowed ?F)"
    using r3 by (simp add: fails_late_def quiet_env_sessions resume_frame_def settle_def)
  have l6: "\<not> fails_late quiet_env (AwaitWake ?C) ?G"
    by (simp add: fails_late_def quiet_env_sessions)
  have l2: "\<not> fails_late E (AwaitMel y) s" for E y s
    by (simp add: fails_late_def)
  have s5: "schedule quiet_env (take 5 overlapping_calls) (?F, []) = (?G, [AwaitWake ?C])"
    by (simp add: overlapping_calls_def schedule_Cons schedule_Nil a1 a2 a3 a4 a5)
  have s6: "schedule quiet_env overlapping_calls (?F, []) = (?H, [])"
    by (simp add: overlapping_calls_def schedule_Cons schedule_Nil a1 a2 a3 a4 a5 a6)
  have c5: "late_count quiet_env (?F, []) (take 5 overlapping_calls) = 0"
    by (simp add: overlapping_calls_def a1 a2 a3 a4 a5 late_event late_settle l2 l3)
  have c6: "late_count quiet_env (?F, []) overlapping_calls = 0"
    by (simp add: overlapping_calls_def a1 a2 a3 a4 a5 a6 late_event late_settle l2 l3 l6)
  have g: "length (embeddingBuffer (wakeDetector ?G)) = 33"
    by (simp add: classifying_fields with_queues_fields)
  have h: "length (embeddingBuffer (wakeDetector ?H)) = 16"
    by (simp add: trimmed_fields detected_fields classifying_fields with_queues_fields)
  have i: "length (embeddingBuffer (wakeDetector ?F)) \<le> 32 + awaiting []"
    by (simp add: n)
  let ?K = "caught (Error ''inference failed'') (windowed ?F)"
  have e2: "resume_frame emb_failing_env (AwaitMel ?x) (settle emb_failing_env (AwaitMel ?x)) ?F
      = (Some (AwaitEmb ?W), windowed ?F)"
    by (rule queued_mel_stretch [OF q _ test_env_frame_8(2)])
       (simp add: emb_failing_env_def test_env_def)
  have e3: "resume_frame emb_failing_env (AwaitEmb ?W) (settle emb_failing_env (AwaitEmb ?W))
      (windowed ?F) = (None, ?K)"
    by (simp add: resume_frame_def settle_def emb_failing_env_def after_emb_def)
  have b1: "act emb_failing_env (?F, []) (Event (Message ?x)) = (?F, [AwaitMel ?x])"
    using act_message [OF w, of emb_failing_env "[]" ?x] by simp
  have b2: "act emb_failing_env (?F, [AwaitMel ?x]) (Settle 0) = (windowed ?F, [AwaitEmb ?W])"
    by (simp add: act_def e2)
  have b3: "act emb_failing_env (windowed ?F, [AwaitEmb ?W]) (Settle 0) = (?K, [])"
    by (simp add: act_def e3)
  have m3: "\<not> fails_late emb_failing_env (AwaitEmb ?W) (windowed ?F)"
    by (simp add: fails_late_def emb_failing_env_def)
  have s3: "schedule emb_failing_env (take 3 overlapping_calls) (?F, []) = (?K, [])"
    by (simp add: overlapping_calls_def schedule_Cons schedule_Nil b1 b2 b3)
  have c3: "late_count emb_failing_env (?F, []) (take 3 overlapping_calls) = 0"
    by (simp add: overlapping_calls_def b1 b2 b3 late_event late_settle l2 m3)
  have k: "length (embeddingBuffer (wakeDetector ?K)) = 32"
    "errors_caught ?K = Suc (errors_caught ?F)"
    using n by (simp_all add: eb_caught errors_caught_caught windowed_def errors_detector)
  show ?thesis
    using embedding_queue_bounded [OF i, of quiet_env overlapping_calls]
      embedding_queue_bounded [OF i, of quiet_env "take 5 overlapping_calls"]
      embedding_queue_bounded [OF i, of emb_failing_env "take 3 overlapping_calls"]
    unfolding s5 s6 c5 c6 s3 c3
    by (simp add: n g h k awaiting_def)
qed

text \<open>
  Counterexample to C3 as stated: with 72 frames queued, each further frame of 8
  spectrogram frames runs one pass of the loop; the classifier rejects after the
  \<^verbatim>\<open>push\<close>, so the queue is never cut, and after 33 such frames it holds 33 embeddings
  at rest.
\<close>

theorem embedding_queue_exceeds_32_counterexample:
  "\<not> length (embeddingBuffer (wakeDetector
         (run failing_env (replicate 33 (Message (replicate 8 0))) warm_instance))) \<le> 32"
  using primed_run_failing [OF primed_warm, of 33]
  by (simp add: primed_def queued_def del: replicate.simps)

section \<open>The windowing pipeline in the succeeding browser\<close>







section \<open>Stopping and restarting\<close>

lemma state_stop: "state (stop s) = state s"
  by (simp add: stop_def Let_def recognizer_stop_def log_def)

lemma start_after_stop:
  assumes "create_session E = (\<lambda>_. None)" "getUserMedia E = None" "addModule E = None"
  shows "start E (stop s)
     = (None, (stop s)\<lparr>wakeDetector := (wakeDetector (stop s))
          \<lparr>sessions := True, onDetection := True, running := True, melFrames := [],
            embeddingBuffer := [], stream := Some Active, audioContext := Some Active,
            worklet := Some Active, initialized := True\<rparr>,
         started := True\<rparr>)"
  using assms
  by (simp add: start_def stop_def Let_def initialize_def detector_start_def detector_stop_def
      recognizer_stop_def log_def)

lemma test_env_loads:
  "create_session test_env = (\<lambda>_. None)" "getUserMedia test_env = None" "addModule test_env = None"
  by (simp_all add: test_env_def)

lemma awake_instance_fields:
  "state awake_instance = Awake"
  "trace awake_instance = [OnWake, RecognitionStart]"
  "sleepTimer awake_instance = Some 5000"
  "recognition (commandRecognizer awake_instance)"
  "r_running (commandRecognizer awake_instance)"
  "\<not> running (wakeDetector awake_instance)"
  "d_confidence (wakeDetector awake_instance) = 1 / 2"
  "embeddingBuffer (wakeDetector awake_instance) = []"
  unfolding awake_instance_def
  by (simp_all add: wake_def Let_def resetSleepTimer_def recognizer_start_def log_def pause_def
      started_instance_fields SR_test_env)

text \<open>
  C5. \<^verbatim>\<open>stop()\<close> cancels the timer and stops the recogniser and the detector but leaves
  \<^verbatim>\<open>state\<close> as it is. Stopped while Awake and started again, the instance starts
  without an error and its detector runs, but the session state is Awake, not Sleeping,
  no timeout is pending and the recogniser is stopped; \<^verbatim>\<open>wake()\<close> is then a no-op, so a
  detection reaches the callback and changes nothing: the session can no longer wake.
\<close>

theorem restart_while_awake_stays_awake:
  "fst (start test_env (stop awake_instance)) = None
   \<and> started restarted_instance
   \<and> running (wakeDetector restarted_instance)
   \<and> state restarted_instance = Awake
   \<and> sleepTimer restarted_instance = None
   \<and> \<not> r_running (commandRecognizer restarted_instance)
   \<and> wake test_env restarted_instance = restarted_instance
   \<and> new_events restarted_instance (snd (after_wake test_env (Inr [9 / 10]) restarted_instance))
        = [OnDetection (9 / 10)]
   \<and> state (snd (after_wake test_env (Inr [9 / 10]) restarted_instance)) = Awake
   \<and> \<not> r_running (commandRecognizer (snd (after_wake test_env (Inr [9 / 10]) restarted_instance)))"
proof -
  note sas = start_after_stop [OF test_env_loads, of awake_instance]
  have f: "started restarted_instance" "running (wakeDetector restarted_instance)"
    "state restarted_instance = Awake" "sleepTimer restarted_instance = None"
    "\<not> r_running (commandRecognizer restarted_instance)"
    "onDetection (wakeDetector restarted_instance)"
    "d_confidence (wakeDetector restarted_instance) = 1 / 2"
    "embeddingBuffer (wakeDetector restarted_instance) = []"
    "melFrames (wakeDetector restarted_instance) = []"
    unfolding restarted_instance_def sas
    by (simp_all add: stop_def Let_def recognizer_stop_def log_def detector_stop_def
        awake_instance_fields)
  have w: "wake test_env restarted_instance = restarted_instance"
    by (simp add: wake_def f)
  have d: "detected test_env [9 / 10] restarted_instance = log (OnDetection (9 / 10)) restarted_instance"
    by (simp add: detected_def f wake_def log_def)
  have t: "trimmed (log (OnDetection (9 / 10)) restarted_instance)
      = log (OnDetection (9 / 10)) restarted_instance"
    by (simp add: trimmed_def log_def f)
  have a: "after_wake test_env (Inr [9 / 10]) restarted_instance
      = (None, log (OnDetection (9 / 10)) restarted_instance)"
    unfolding after_wake_Inr d t
    by (rule loop_head_short) (simp add: log_def f MELSPEC_WINDOW_def)
  show ?thesis
    using f w by (simp add: sas a new_events_def log_def)
qed


lemma stopped_hot_fields:
  "state (stop hot_instance) = Sleeping"
  "trace (stop hot_instance) = []"
  "\<not> started (stop hot_instance)"
  "sleepTimer (stop hot_instance) = None"
  "\<not> running (wakeDetector (stop hot_instance))"
  "\<not> initialized (wakeDetector (stop hot_instance))"
  "worklet (wakeDetector (stop hot_instance)) = Some Released"
  "onDetection (wakeDetector (stop hot_instance))"
  "d_confidence (wakeDetector (stop hot_instance)) = 1 / 2"
  "onWake (config (stop hot_instance))"
  "sleepAfter (config (stop hot_instance)) = 5000"
  "queued 72 15 (stop hot_instance)"
  unfolding hot_instance_eq
  by (simp_all add: stop_def Let_def recognizer_stop_def log_def detector_stop_def release_def
      with_queues_def queued_def started_instance_fields length_concat_replicate MELSPEC_WINDOW_def)

lemma hot_instance_running:
  "running (wakeDetector hot_instance)" "started hot_instance" "trace hot_instance = []"
  unfolding hot_instance_eq by (simp_all add: with_queues_def started_instance_fields)

lemma stale_instance_eq:
  "stale_instance
     = wake test_env (log (OnDetection (9 / 10)) (classifying (with_queues 72 16 (stop hot_instance))))"
proof -
  let ?S = "classifying (with_queues 72 16 (stop hot_instance))"
  have f: "state ?S = Sleeping" "onDetection (wakeDetector ?S)" "d_confidence (wakeDetector ?S) = 1 / 2"
    by (simp_all add: classifying_def with_queues_def stopped_hot_fields)
  have d: "detected test_env [9 / 10] ?S = wake test_env (log (OnDetection (9 / 10)) ?S)"
    by (simp add: detected_def f)
  have q: "embeddingBuffer (wakeDetector (wake test_env (log (OnDetection (9 / 10)) ?S)))
             = replicate 16 (replicate 96 0)"
    "melFrames (wakeDetector (wake test_env (log (OnDetection (9 / 10)) ?S)))
             = replicate 72 (replicate 32 2)"
    by (simp_all add: detector_wake pause_def log_def classifying_def with_queues_def)
  have t: "trimmed (wake test_env (log (OnDetection (9 / 10)) ?S))
      = wake test_env (log (OnDetection (9 / 10)) ?S)"
    by (simp add: trimmed_def q)
  have a: "after_wake test_env (Inr [9 / 10]) ?S
      = (None, wake test_env (log (OnDetection (9 / 10)) ?S))"
    unfolding after_wake_Inr d t
    by (rule loop_head_short) (simp add: q MELSPEC_WINDOW_def)
  have "stale_instance = run_frame test_env (after_wake test_env (Inr [9 / 10]) ?S)"
    unfolding stale_instance_def
    using queued_frame [OF stopped_hot_fields(12) test_env_frame_8(1,2) test_env_frame_8(3)]
    by (simp add: test_env_frame_8(4) del: run_frame.simps)
  then show ?thesis
    by (simp add: a)
qed

text \<open>
  C6. \<^verbatim>\<open>running\<close> is read only by the message handler, before \<^verbatim>\<open>processFrame\<close> is
  called; nothing after an \<^verbatim>\<open>await\<close> reads it. A call in flight when \<^verbatim>\<open>stop()\<close>
  intervenes therefore completes as if nothing had happened: here it reaches the
  classifier, the score 0.9 passes the threshold, the detection callback is called on the
  stopped instance and \<^verbatim>\<open>wake()\<close> runs: \<^verbatim>\<open>onWake\<close> is called, speech recognition is
  started and a timeout is armed, on an instance that is not started.
\<close>

theorem stale_detection_after_stop:
  "onmessage (replicate 8 0) hot_instance = (Some (AwaitMel (replicate 8 0)), hot_instance)
   \<and> \<not> running (wakeDetector (stop hot_instance))
   \<and> \<not> started (stop hot_instance)
   \<and> new_events (stop hot_instance) stale_instance
        = [OnDetection (9 / 10), OnWake, RecognitionStart]
   \<and> state stale_instance = Awake
   \<and> sleepTimer stale_instance = Some 5000
   \<and> r_running (commandRecognizer stale_instance)
   \<and> \<not> started stale_instance"
proof -
  let ?S = "log (OnDetection (9 / 10)) (classifying (with_queues 72 16 (stop hot_instance)))"
  have f: "state ?S = Sleeping" "onWake (config ?S)" "sleepAfter (config ?S) = 5000"
    "trace ?S = [OnDetection (9 / 10)]" "\<not> started ?S"
    by (simp_all add: log_def classifying_def with_queues_def stopped_hot_fields)
  have tr: "trace stale_instance = [OnDetection (9 / 10), OnWake, RecognitionStart]"
    unfolding stale_instance_eq by (simp add: trace_wake f SR_test_env)
  have rest: "sleepTimer stale_instance = Some 5000" "r_running (commandRecognizer stale_instance)"
    "\<not> started stale_instance"
    unfolding stale_instance_eq
    using f by (simp_all add: wake_def Let_def resetSleepTimer_def recognizer_start_def
        SR_test_env log_def [of RecognitionStart] log_def [of OnWake])
  show ?thesis
    using tr rest hot_instance_running stopped_hot_fields
    by (simp add: onmessage_def new_events_def stale_instance_eq state_wake)
qed


end
